theory Spec2Isabelle
  imports Complex_Main "HOL-Library.AList" "HOL-Library.Char_ord" "HOL-Library.List_Lexorder"
begin

section \<open>The roulette table server: values of the language\<close>

text \<open>
  The server is one JavaScript process: socket.io handlers over module-level variables.
  The source file holds two copies of it; the one modelled here is the first, with the
  weights and the ordered leaderboard (the second is an older variant without them).

  Its numbers are IEEE doubles. They are modelled by exact rationals together with the
  three special values; rounding and overflow of doubles are not modelled, and \<open>-0\<close> is
  identified with \<open>0\<close> (the program never distinguishes them). Strings are lists of code
  units below 256. The arguments of the events have the types of the interface: a join
  identifier and a dealer code are strings, a bet is a number, a string or \<open>null\<close>, the
  client randoms are a sequence of finite numbers.
\<close>

datatype jsnum = Num rat | NaN | PosInf | NegInf

text \<open>
  The values a bet or a winning number can be: \<open>null\<close>, a number or a string
  (the interface types a submitted bet as \<open>number | string | null\<close>).
\<close>

datatype jsval = JNull | JNum jsnum | JStr string

subsection \<open>\<open>String.prototype.trim\<close> and \<open>toLowerCase\<close>\<close>

definition is_ws :: "char \<Rightarrow> bool" where
  "is_ws c = (of_char c \<in> {9, 10, 11, 12, 13, 32, 160 :: nat})"

definition trim :: "string \<Rightarrow> string" where
  "trim s = rev (dropWhile is_ws (rev (dropWhile is_ws s)))"

definition lower_char :: "char \<Rightarrow> char" where
  "lower_char c =
     (let n = (of_char c :: nat)
      in if (65 \<le> n \<and> n \<le> 90) \<or> (192 \<le> n \<and> n \<le> 222 \<and> n \<noteq> 215)
         then char_of (n + 32) else c)"

definition toLowerCase :: "string \<Rightarrow> string" where
  "toLowerCase s = map lower_char s"

subsection \<open>\<open>Number(string)\<close>\<close>

text \<open>
  The conversion of a string to a number (the grammar \<open>StringNumericLiteral\<close>): white
  space is stripped; the empty string is \<open>0\<close>; then either an unsigned binary, octal or
  hexadecimal integer with its prefix, or an optionally signed \<open>Infinity\<close> or decimal
  literal with optional fraction and exponent; anything else is \<open>NaN\<close>.
\<close>

definition digit_of :: "char \<Rightarrow> nat option" where
  "digit_of c =
     (let n = (of_char c :: nat)
      in if 48 \<le> n \<and> n \<le> 57 then Some (n - 48)
         else if 97 \<le> n \<and> n \<le> 102 then Some (n - 87)
         else if 65 \<le> n \<and> n \<le> 70 then Some (n - 55)
         else None)"

definition is_digit_in :: "nat \<Rightarrow> char \<Rightarrow> bool" where
  "is_digit_in b c = (case digit_of c of None \<Rightarrow> False | Some d \<Rightarrow> d < b)"

definition digits_value :: "nat \<Rightarrow> string \<Rightarrow> nat" where
  "digits_value b ds = foldl (\<lambda>a c. b * a + (case digit_of c of None \<Rightarrow> 0 | Some d \<Rightarrow> d)) 0 ds"

definition all_digits_in :: "nat \<Rightarrow> string \<Rightarrow> bool" where
  "all_digits_in b ds = (ds \<noteq> [] \<and> list_all (is_digit_in b) ds)"

definition span_digits :: "string \<Rightarrow> string \<times> string" where
  "span_digits s = (takeWhile (is_digit_in 10) s, dropWhile (is_digit_in 10) s)"

definition pow10 :: "int \<Rightarrow> rat" where
  "pow10 e = (if 0 \<le> e then 10 ^ nat e else 1 / 10 ^ nat (- e))"

definition parse_exponent :: "string \<Rightarrow> int option" where
  "parse_exponent s =
     (case s of
        [] \<Rightarrow> Some 0
      | c # t \<Rightarrow>
          if c = CHR ''e'' \<or> c = CHR ''E'' then
            (case t of
               [] \<Rightarrow> None
             | d # u \<Rightarrow>
                 if d = CHR ''-'' then
                   (if all_digits_in 10 u then Some (- int (digits_value 10 u)) else None)
                 else if d = CHR ''+'' then
                   (if all_digits_in 10 u then Some (int (digits_value 10 u)) else None)
                 else (if all_digits_in 10 t then Some (int (digits_value 10 t)) else None))
          else None)"

definition parse_unsigned_decimal :: "string \<Rightarrow> rat option" where
  "parse_unsigned_decimal s =
     (let (ip, r1) = span_digits s;
          (fp, r2) = (case r1 of
                        c # t \<Rightarrow> if c = CHR ''.'' then span_digits t else ([], r1)
                      | [] \<Rightarrow> ([], r1));
          dotted = (case r1 of c # t \<Rightarrow> c = CHR ''.'' | [] \<Rightarrow> False)
      in if ip = [] \<and> fp = [] then None
         else if ip = [] \<and> \<not> dotted then None
         else (case parse_exponent r2 of
                 None \<Rightarrow> None
               | Some e \<Rightarrow>
                   Some ((of_nat (digits_value 10 ip)
                          + of_nat (digits_value 10 fp) / 10 ^ length fp) * pow10 e)))"

definition parse_unsigned :: "string \<Rightarrow> jsnum" where
  "parse_unsigned s =
     (if s = ''Infinity'' then PosInf
      else (case parse_unsigned_decimal s of None \<Rightarrow> NaN | Some q \<Rightarrow> Num q))"

definition negate :: "jsnum \<Rightarrow> jsnum" where
  "negate x = (case x of Num q \<Rightarrow> Num (- q) | NaN \<Rightarrow> NaN | PosInf \<Rightarrow> NegInf | NegInf \<Rightarrow> PosInf)"

definition parse_prefixed :: "string \<Rightarrow> jsnum option" where
  "parse_prefixed s =
     (case s of
        z # p # ds \<Rightarrow>
          if z \<noteq> CHR ''0'' then None
          else if p = CHR ''x'' \<or> p = CHR ''X'' then
            Some (if all_digits_in 16 ds then Num (of_nat (digits_value 16 ds)) else NaN)
          else if p = CHR ''o'' \<or> p = CHR ''O'' then
            Some (if all_digits_in 8 ds then Num (of_nat (digits_value 8 ds)) else NaN)
          else if p = CHR ''b'' \<or> p = CHR ''B'' then
            Some (if all_digits_in 2 ds then Num (of_nat (digits_value 2 ds)) else NaN)
          else None
      | _ \<Rightarrow> None)"

definition string_to_number :: "string \<Rightarrow> jsnum" where
  "string_to_number s =
     (let t = trim s
      in case t of
           [] \<Rightarrow> Num 0
         | c # u \<Rightarrow>
             (case parse_prefixed t of
                Some x \<Rightarrow> x
              | None \<Rightarrow>
                  if c = CHR ''-'' then negate (parse_unsigned u)
                  else if c = CHR ''+'' then parse_unsigned u
                  else parse_unsigned t))"

subsection \<open>Comparisons on numbers\<close>

text \<open>\<open>a === b\<close> on two numbers: \<open>NaN\<close> equals nothing, not even itself.\<close>

definition num_eq :: "jsnum \<Rightarrow> jsnum \<Rightarrow> bool" where
  "num_eq a b = (a \<noteq> NaN \<and> a = b)"

text \<open>\<open>a === b\<close> on two values of the kinds above (no coercion between kinds).\<close>

fun strict_eq :: "jsval \<Rightarrow> jsval \<Rightarrow> bool" where
  "strict_eq JNull JNull = True"
| "strict_eq (JNum a) (JNum b) = num_eq a b"
| "strict_eq (JStr s) (JStr t) = (s = t)"
| "strict_eq _ _ = False"

text \<open>\<open>typeof bet === 'number' && bet >= 0 && bet <= 36\<close>.\<close>

fun in_table_range :: "jsval \<Rightarrow> bool" where
  "in_table_range (JNum (Num q)) = (0 \<le> q \<and> q \<le> 36)"
| "in_table_range _ = False"

section \<open>Colours of the wheel\<close>

text \<open>
  \<open>isRed(n)\<close> is \<open>[1,3,...,36].includes(n)\<close>: true exactly of the eighteen listed
  numbers. \<open>isBlack(n)\<close> is \<open>n !== 0 && !isRed(n)\<close>: it holds of every number value
  that is neither zero nor red, also of fractions, of numbers beyond 36 and of \<open>NaN\<close>.
\<close>

definition red_numbers :: "nat list" where
  "red_numbers = [1,3,5,7,9,12,14,16,18,19,21,23,25,27,30,32,34,36]"

definition isRed :: "jsnum \<Rightarrow> bool" where
  "isRed n = (n \<in> set (map (\<lambda>k. Num (of_nat k)) red_numbers))"

definition isBlack :: "jsnum \<Rightarrow> bool" where
  "isBlack n = (n \<noteq> Num 0 \<and> \<not> isRed n)"

section \<open>The state of the process\<close>

type_synonym sid = string
type_synonym code = string

text \<open>
  The registry is read once from \<open>users.txt\<close> at start-up and never written again:
  \<open>usersByCode\<close>, \<open>usersOrder\<close> (one entry per accepted line, in file order) and
  \<open>DEALER_CODE\<close> (\<open>null\<close> when no user is named Dealer). The loader itself is file
  handling and is not modelled; the handlers below take its result as a parameter.
\<close>

record registry =
  usersByCode :: "code \<rightharpoonup> string"
  usersOrder :: "code list"
  DEALER_CODE :: "code option"

text \<open>\<open>selections[sid] = { name, bet }\<close>; \<open>name\<close> is undefined before the first join.\<close>

record selection =
  sel_name :: "string option"
  sel_bet :: jsval

text \<open>\<open>connectedSockets[sid] = { name, code }\<close>.\<close>

record conn =
  conn_name :: string
  conn_code :: "code option"

text \<open>\<open>usersStatus[code] = { connected, socketId }\<close>.\<close>

record status =
  connected :: bool
  socketId :: "sid option"

text \<open>\<open>socket.data\<close> of one socket.\<close>

record sockdata =
  data_name :: "string option"
  data_code :: "code option"

datatype outcome = WIN | COLOR_ONLY | COLOR | LOSE

record spin_result =
  winningNumber :: jsnum
  results :: "(sid \<times> outcome) list"

text \<open>
  The module-level variables. A JavaScript object whose keys are iterated
  (\<open>selections\<close>, \<open>connectedSockets\<close>) is an association list in insertion order:
  assignment to a present key keeps its place, assignment to a new key appends
  (\<open>AList.update\<close>), \<open>delete\<close> removes (\<open>AList.delete\<close>). Socket ids are the
  non-empty strings socket.io generates, so a test such as \<open>!dealerSocket\<close> is a
  test for \<open>null\<close>. \<open>weightBySocket\<close> only ever receives finite numbers.
\<close>

record state =
  dealerSocket :: "sid option"
  betsOpen :: bool
  selections :: "(sid \<times> selection) list"
  weightBySocket :: "sid \<rightharpoonup> rat"
  lastSpinResult :: "spin_result option"
  spinning :: bool
  connectedSockets :: "(sid \<times> conn) list"
  usersStatus :: "code \<rightharpoonup> status"
  socket_data :: "sid \<Rightarrow> sockdata"

definition no_data :: sockdata where
  "no_data = \<lparr>data_name = None, data_code = None\<rparr>"

definition init_status :: "code list \<Rightarrow> code \<rightharpoonup> status" where
  "init_status cs = map_of (map (\<lambda>c. (c, \<lparr>connected = False, socketId = None\<rparr>)) cs)"

definition init_state :: "registry \<Rightarrow> state" where
  "init_state reg =
     \<lparr>dealerSocket = None, betsOpen = False, selections = [], weightBySocket = Map.empty,
      lastSpinResult = None, spinning = False, connectedSockets = [],
      usersStatus = init_status (usersOrder reg), socket_data = (\<lambda>_. no_data)\<rparr>"

datatype error = TypeError

section \<open>The spin\<close>

subsection \<open>Collecting the bettors\<close>

text \<open>
  The normalisation both loops over \<open>selections\<close> apply: a string that
  \<open>Number\<close> converts becomes that number, any other string is trimmed and lower-cased.
\<close>

definition normalize :: "jsval \<Rightarrow> jsval" where
  "normalize b =
     (case b of
        JStr s \<Rightarrow> (case string_to_number s of
                     NaN \<Rightarrow> JStr (toLowerCase (trim s))
                   | n \<Rightarrow> JNum n)
      | _ \<Rightarrow> b)"

record bettors =
  bettorsByNumber :: "sid list list"
  bettorsRed :: "sid list"
  bettorsBlack :: "sid list"
  anyNumeric :: bool
  anyColor :: bool

definition no_bettors :: bettors where
  "no_bettors =
     \<lparr>bettorsByNumber = replicate 37 [], bettorsRed = [], bettorsBlack = [],
      anyNumeric = False, anyColor = False\<rparr>"

text \<open>
  \<open>bettorsByNumber[bet]\<close> is an array element only when \<open>bet\<close> is an integer; for a
  fraction in range it is \<open>undefined\<close> and \<open>.push\<close> throws.
\<close>

fun table_index :: "jsval \<Rightarrow> nat option" where
  "table_index (JNum (Num q)) = (if of_int \<lfloor>q\<rfloor> = q then Some (nat \<lfloor>q\<rfloor>) else None)"
| "table_index _ = None"

definition add_bettor :: "bettors \<Rightarrow> sid \<times> selection \<Rightarrow> error + bettors" where
  "add_bettor B p =
     (let sid = fst p; b = normalize (sel_bet (snd p))
      in if in_table_range b then
           (case table_index b of
              None \<Rightarrow> Inl TypeError
            | Some n \<Rightarrow>
                Inr (B\<lparr>anyNumeric := True,
                       bettorsByNumber := (bettorsByNumber B)[n := bettorsByNumber B ! n @ [sid]]\<rparr>))
         else if b = JStr ''red'' then
           Inr (B\<lparr>anyColor := True, bettorsRed := bettorsRed B @ [sid]\<rparr>)
         else if b = JStr ''black'' then
           Inr (B\<lparr>anyColor := True, bettorsBlack := bettorsBlack B @ [sid]\<rparr>)
         else Inr B)"

fun collect_bettors :: "(sid \<times> selection) list \<Rightarrow> bettors \<Rightarrow> error + bettors" where
  "collect_bettors [] B = Inr B"
| "collect_bettors (p # ps) B =
     (case add_bettor B p of Inl e \<Rightarrow> Inl e | Inr B' \<Rightarrow> collect_bettors ps B')"

text \<open>
  Lines 249 to 271 fill \<open>colorInfo\<close>, which nothing reads afterwards and which cannot
  throw; it is left out.
\<close>

subsection \<open>Weights\<close>

text \<open>\<open>weightBySocket[sid] !== undefined ? Number(weightBySocket[sid]) : 1\<close>.\<close>

definition weight_of :: "(sid \<rightharpoonup> rat) \<Rightarrow> sid \<Rightarrow> rat" where
  "weight_of W sid = (case W sid of None \<Rightarrow> 1 | Some w \<Rightarrow> w)"

definition high_count :: "(sid \<rightharpoonup> rat) \<Rightarrow> sid list \<Rightarrow> nat" where
  "high_count W sids = foldl (\<lambda>s sid. s + (if 2 \<le> weight_of W sid then 1 else 0)) 0 sids"

definition nat_is_red :: "nat \<Rightarrow> bool" where
  "nat_is_red n = isRed (Num (of_nat n))"

definition nat_is_black :: "nat \<Rightarrow> bool" where
  "nat_is_black n = isBlack (Num (of_nat n))"

subsection \<open>The priority rule\<close>

text \<open>
  \<open>highWeightNumbers\<close> has integer keys between 0 and 36, which an object enumerates in
  ascending order: it is a list of 37 cells, \<open>None\<close> for an absent key.
\<close>

definition hw_add :: "nat option list \<Rightarrow> nat \<Rightarrow> nat \<Rightarrow> nat option list" where
  "hw_add h n c = h[n := Some ((case h ! n of None \<Rightarrow> 0 | Some x \<Rightarrow> x) + c)]"

definition hw_numeric :: "(sid \<rightharpoonup> rat) \<Rightarrow> bettors \<Rightarrow> nat option list" where
  "hw_numeric W B =
     foldl (\<lambda>h n. let count = high_count W (bettorsByNumber B ! n)
                  in if 0 < count then hw_add h n count else h)
           (replicate 37 None) [0..<37]"

definition hw_colour :: "(nat \<Rightarrow> bool) \<Rightarrow> nat \<Rightarrow> nat option list \<Rightarrow> nat option list" where
  "hw_colour is_col high h =
     (if 0 < high then foldl (\<lambda>h n. if is_col n then hw_add h n high else h) h [0..<37]
      else h)"

definition highWeightNumbers :: "(sid \<rightharpoonup> rat) \<Rightarrow> bettors \<Rightarrow> nat option list" where
  "highWeightNumbers W B =
     (let highRed = high_count W (bettorsRed B);
          highBlack = high_count W (bettorsBlack B)
      in hw_colour nat_is_black highBlack (hw_colour nat_is_red highRed (hw_numeric W B)))"

definition hw_entries :: "nat option list \<Rightarrow> (nat \<times> nat) list" where
  "hw_entries h =
     concat (map (\<lambda>n. case h ! n of None \<Rightarrow> [] | Some c \<Rightarrow> [(n, c)]) [0..<37])"

fun pick_high :: "rat \<Rightarrow> rat \<Rightarrow> rat \<Rightarrow> (nat \<times> nat) list \<Rightarrow> nat option" where
  "pick_high r totalHigh acc [] = None"
| "pick_high r totalHigh acc ((n, cnt) # es) =
     (let acc' = acc + of_nat cnt / totalHigh
      in if r \<le> acc' then Some n else pick_high r totalHigh acc' es)"

subsection \<open>The normal weighted rule\<close>

definition add_pos :: "(sid \<rightharpoonup> rat) \<Rightarrow> rat \<Rightarrow> sid list \<Rightarrow> rat" where
  "add_pos W s sids = foldl (\<lambda>s sid. let w = weight_of W sid in if 0 < w then s + w else s) s sids"

definition number_weight :: "(sid \<rightharpoonup> rat) \<Rightarrow> bettors \<Rightarrow> nat \<Rightarrow> rat" where
  "number_weight W B n =
     (let numericSids = bettorsByNumber B ! n;
          colorSids = (if nat_is_red n then bettorsRed B
                       else if nat_is_black n then bettorsBlack B else []);
          hasAnyBettor = (numericSids \<noteq> [] \<or> colorSids \<noteq> []);
          sumPos = add_pos W (add_pos W 0 numericSids) colorSids
      in if \<not> hasAnyBettor then 1
         else if sumPos \<le> 0 then 0
         else 1 + sumPos)"

definition weights :: "(sid \<rightharpoonup> rat) \<Rightarrow> bettors \<Rightarrow> rat list" where
  "weights W B = map (number_weight W B) [0..<37]"

fun pick_weighted :: "rat \<Rightarrow> rat \<Rightarrow> rat \<Rightarrow> nat \<Rightarrow> rat list \<Rightarrow> nat option" where
  "pick_weighted r tot acc i [] = None"
| "pick_weighted r tot acc i (w # ws) =
     (let acc' = acc + w / tot
      in if r \<le> acc' then Some i else pick_weighted r tot acc' (Suc i) ws)"

subsection \<open>The winning number\<close>

text \<open>\<open>clientRandoms.reduce((a, b) => a + b, 0) / clientRandoms.length\<close>: \<open>0 / 0\<close> is \<open>NaN\<close>.\<close>

definition average :: "rat list \<Rightarrow> jsnum" where
  "average clientRandoms =
     (if clientRandoms = [] then NaN
      else Num (foldl (+) 0 clientRandoms / of_nat (length clientRandoms)))"

text \<open>\<open>Math.floor(x * 37)\<close>.\<close>

definition floor37 :: "jsnum \<Rightarrow> jsnum" where
  "floor37 x = (case x of Num q \<Rightarrow> Num (of_int \<lfloor>q * 37\<rfloor>) | y \<Rightarrow> y)"

text \<open>
  \<open>r\<close> is the value \<open>Math.random()\<close> returns where the code calls it (at most once in a
  spin), a number with \<open>0 \<le> r < 1\<close>.
\<close>

definition normal_draw :: "(sid \<rightharpoonup> rat) \<Rightarrow> bettors \<Rightarrow> jsnum \<Rightarrow> rat \<Rightarrow> jsnum" where
  "normal_draw W B avg r =
     (let ws = weights W B; tot = foldl (+) 0 ws
      in if tot \<le> 0 then floor37 avg
         else (case pick_weighted r tot 0 0 ws of
                 Some i \<Rightarrow> Num (of_nat i)
               | None \<Rightarrow> floor37 (Num r)))"

definition choose_winner :: "(sid \<rightharpoonup> rat) \<Rightarrow> bettors \<Rightarrow> jsnum \<Rightarrow> rat \<Rightarrow> jsnum" where
  "choose_winner W B avg r =
     (if anyNumeric B \<or> anyColor B then
        (case hw_entries (highWeightNumbers W B) of
           (n0, c0) # es \<Rightarrow>
             (let entries = (n0, c0) # es;
                  totalHigh = foldl (\<lambda>s x. s + of_nat (snd x)) 0 entries
              in case pick_high r totalHigh 0 entries of
                   Some n \<Rightarrow> Num (of_nat n)
                 | None \<Rightarrow> Num (of_nat n0))
         | [] \<Rightarrow> normal_draw W B avg r)
      else floor37 avg)"

subsection \<open>Classifying the bets\<close>

definition classify :: "jsnum \<Rightarrow> jsval \<Rightarrow> outcome" where
  "classify w raw =
     (let bet = normalize raw
      in if strict_eq bet (JNum w) then WIN
         else if bet = JStr ''red'' \<or> bet = JStr ''black'' then
           (if (bet = JStr ''red'' \<and> isRed w) \<or> (bet = JStr ''black'' \<and> isBlack w)
            then COLOR_ONLY else LOSE)
         else (case bet of
                 JNum b \<Rightarrow> if (isRed b \<and> isRed w) \<or> (isBlack b \<and> isBlack w)
                           then COLOR else LOSE
               | _ \<Rightarrow> LOSE))"

definition spin_results :: "jsnum \<Rightarrow> (sid \<times> selection) list \<Rightarrow> (sid \<times> outcome) list" where
  "spin_results w sels =
     foldl (\<lambda>res p. AList.update (fst p) (classify w (sel_bet (snd p))) res) [] sels"

subsection \<open>The handler\<close>

text \<open>
  An exception thrown in the handler leaves it at once (\<open>Inl\<close>); nothing catches it.
  The timer that clears \<open>spinning\<close> is a step of its own, below.
\<close>

definition spin :: "sid \<Rightarrow> rat list \<Rightarrow> rat \<Rightarrow> state \<Rightarrow> error + state" where
  "spin sid clientRandoms r st =
     (if dealerSocket st \<noteq> Some sid then Inr st
      else if spinning st then Inr st
      else (case collect_bettors (selections st) no_bettors of
              Inl e \<Rightarrow> Inl e
            | Inr B \<Rightarrow>
                (let w = choose_winner (weightBySocket st) B (average clientRandoms) r
                 in Inr (st\<lparr>spinning := True, betsOpen := False,
                           lastSpinResult :=
                             Some \<lparr>winningNumber = w,
                                   results = spin_results w (selections st)\<rparr>\<rparr>))))"

section \<open>The other handlers\<close>

text \<open>The test \<open>/^\d{6}$/\<close>.\<close>

definition is_code :: "string \<Rightarrow> bool" where
  "is_code s = (length s = 6 \<and> list_all (is_digit_in 10) s)"

text \<open>\<open>DEALER_CODE && code === DEALER_CODE\<close>.\<close>

definition is_dealer_code :: "registry \<Rightarrow> string \<Rightarrow> bool" where
  "is_dealer_code reg c =
     (case DEALER_CODE reg of None \<Rightarrow> False | Some dc \<Rightarrow> dc \<noteq> [] \<and> c = dc)"

text \<open>A string or \<open>undefined\<close> used as a condition: the empty string counts as absent.\<close>

definition truthy :: "string option \<Rightarrow> string option" where
  "truthy x = (case x of None \<Rightarrow> None | Some s \<Rightarrow> if s = [] then None else Some s)"

text \<open>
  \<open>join\<close>: the first part sets \<open>socket.data\<close> and may grant the dealer role; a code the
  registry does not know leaves an earlier \<open>socket.data.code\<close> of the same socket in
  place. The second part records the connection and marks the user of
  \<open>socket.data.code\<close> connected. The interface types the identifier as a string.
\<close>

definition join_identify :: "registry \<Rightarrow> sid \<Rightarrow> string \<Rightarrow> state \<Rightarrow> state" where
  "join_identify reg sid identifier st =
     (let d = socket_data st sid
      in if is_code identifier then
           (case usersByCode reg identifier of
              None \<Rightarrow> st\<lparr>socket_data := (socket_data st)(sid := d\<lparr>data_name := Some ''Unknown''\<rparr>)\<rparr>
            | Some name \<Rightarrow>
                if name = [] then
                  st\<lparr>socket_data := (socket_data st)(sid := d\<lparr>data_name := Some ''Unknown''\<rparr>)\<rparr>
                else
                  (let st' = st\<lparr>socket_data :=
                                 (socket_data st)(sid := \<lparr>data_name = Some name,
                                                          data_code = Some identifier\<rparr>)\<rparr>
                   in if is_dealer_code reg identifier \<and> dealerSocket st = None
                      then st'\<lparr>dealerSocket := Some sid\<rparr> else st'))
         else st\<lparr>socket_data := (socket_data st)(sid := d\<lparr>data_name := Some identifier\<rparr>)\<rparr>)"

definition join_track :: "sid \<Rightarrow> state \<Rightarrow> state" where
  "join_track sid st =
     (let d = socket_data st sid;
          nm = (case data_name d of None \<Rightarrow> [] | Some n \<Rightarrow> n);
          st' = st\<lparr>connectedSockets :=
                     AList.update sid \<lparr>conn_name = nm, conn_code = truthy (data_code d)\<rparr>
                       (connectedSockets st)\<rparr>
      in case truthy (data_code d) of
           None \<Rightarrow> st'
         | Some c \<Rightarrow>
             st'\<lparr>usersStatus :=
                   (usersStatus st')(c \<mapsto> \<lparr>connected = True, socketId = Some sid\<rparr>)\<rparr>)"

definition join :: "registry \<Rightarrow> sid \<Rightarrow> string \<Rightarrow> state \<Rightarrow> state" where
  "join reg sid identifier st = join_track sid (join_identify reg sid identifier st)"

text \<open>
  \<open>setWeight\<close>; \<open>w\<close> is \<open>Number(weight)\<close>. The stored value is
  \<open>Math.max(0, Math.min(10, w))\<close>. The target is looked up among the keys of
  \<open>connectedSockets\<close> (the properties every object inherits are left aside: no socket
  id is one of them, and nothing reads a weight stored under one).
\<close>

definition clamp_weight :: "jsnum \<Rightarrow> rat" where
  "clamp_weight w =
     (case w of Num q \<Rightarrow> max 0 (min 10 q) | PosInf \<Rightarrow> 10 | NegInf \<Rightarrow> 0 | NaN \<Rightarrow> 0)"

definition setWeight :: "sid \<Rightarrow> sid \<Rightarrow> jsnum \<Rightarrow> state \<Rightarrow> state" where
  "setWeight sid target w st =
     (if dealerSocket st \<noteq> Some sid then st
      else if w = NaN then st
      else if map_of (connectedSockets st) target \<noteq> None
           then st\<lparr>weightBySocket := (weightBySocket st)(target \<mapsto> clamp_weight w)\<rparr>
           else st)"

definition dealerLogin :: "registry \<Rightarrow> sid \<Rightarrow> string \<Rightarrow> state \<Rightarrow> state" where
  "dealerLogin reg sid c st =
     (if is_dealer_code reg c \<and> dealerSocket st = None
      then st\<lparr>dealerSocket := Some sid\<rparr> else st)"

text \<open>\<open>disconnect\<close>; the socket object, and \<open>socket.data\<close> with it, is gone afterwards.\<close>

definition disconnect :: "sid \<Rightarrow> state \<Rightarrow> state" where
  "disconnect sid st =
     (let st1 = (if dealerSocket st = Some sid
                 then st\<lparr>dealerSocket := None, betsOpen := False\<rparr> else st);
          st2 = st1\<lparr>selections := AList.delete sid (selections st1)\<rparr>;
          st3 = (case truthy (data_code (socket_data st2 sid)) of
                   None \<Rightarrow> st2
                 | Some c \<Rightarrow>
                     if usersStatus st2 c \<noteq> None
                     then st2\<lparr>usersStatus :=
                                (usersStatus st2)(c \<mapsto> \<lparr>connected = False, socketId = None\<rparr>)\<rparr>
                     else st2)
      in st3\<lparr>connectedSockets := AList.delete sid (connectedSockets st3),
             socket_data := (socket_data st3)(sid := no_data)\<rparr>)"

definition select :: "sid \<Rightarrow> jsval \<Rightarrow> state \<Rightarrow> state" where
  "select sid b st =
     (if \<not> betsOpen st then st
      else if dealerSocket st = Some sid then st
      else st\<lparr>selections :=
                AList.update sid \<lparr>sel_name = data_name (socket_data st sid), sel_bet = b\<rparr>
                  (selections st)\<rparr>)"

definition openBets :: "sid \<Rightarrow> state \<Rightarrow> state" where
  "openBets sid st = (if dealerSocket st \<noteq> Some sid then st else st\<lparr>betsOpen := True\<rparr>)"

definition closeBets :: "sid \<Rightarrow> state \<Rightarrow> state" where
  "closeBets sid st = (if dealerSocket st \<noteq> Some sid then st else st\<lparr>betsOpen := False\<rparr>)"

text \<open>The callback of \<open>setTimeout\<close> in the spin handler.\<close>

definition spin_timeout :: "state \<Rightarrow> state" where
  "spin_timeout st = st\<lparr>spinning := False\<rparr>"

section \<open>The leaderboard\<close>

record row =
  row_name :: "string option"
  row_bet :: jsval
  row_connected :: bool
  row_weight :: "rat option"

text \<open>
  The row of a connected socket: its bet (\<open>null\<close> when it has none) and its weight
  (1 when none was set).
\<close>

definition live_row :: "state \<Rightarrow> string option \<Rightarrow> sid \<Rightarrow> row" where
  "live_row st nm sid =
     \<lparr>row_name = nm,
      row_bet = (case map_of (selections st) sid of None \<Rightarrow> JNull | Some e \<Rightarrow> sel_bet e),
      row_connected = True,
      row_weight = Some (weight_of (weightBySocket st) sid)\<rparr>"

definition registered_rows :: "registry \<Rightarrow> state \<Rightarrow> (string \<times> row) list" where
  "registered_rows reg st =
     foldl (\<lambda>ordered c.
              let s = (case usersStatus st c of
                         None \<Rightarrow> \<lparr>connected = False, socketId = None\<rparr>
                       | Some s \<Rightarrow> s)
              in case (if connected s then truthy (socketId s) else None) of
                   Some sid \<Rightarrow>
                     if map_of (connectedSockets st) sid \<noteq> None
                     then AList.update sid (live_row st (usersByCode reg c) sid) ordered
                     else AList.update (''u:'' @ c)
                            \<lparr>row_name = usersByCode reg c, row_bet = JNull,
                             row_connected = False, row_weight = None\<rparr> ordered
                 | None \<Rightarrow>
                     AList.update (''u:'' @ c)
                       \<lparr>row_name = usersByCode reg c, row_bet = JNull,
                        row_connected = False, row_weight = None\<rparr> ordered)
           [] (usersOrder reg)"

text \<open>
  The sockets left over: those without a code of \<open>usersStatus\<close>. \<open>Array.prototype.sort\<close>
  is stable and the comparison is that of the lower-cased names by code units.
\<close>

definition remaining :: "state \<Rightarrow> (sid \<times> conn) list" where
  "remaining st =
     sort_key (\<lambda>p. toLowerCase (conn_name (snd p)))
       (filter (\<lambda>p. \<not> (case truthy (conn_code (snd p)) of
                          None \<Rightarrow> False
                        | Some c \<Rightarrow> usersStatus st c \<noteq> None))
               (connectedSockets st))"

definition emitLeaderboard :: "registry \<Rightarrow> state \<Rightarrow> (string \<times> row) list" where
  "emitLeaderboard reg st =
     foldl (\<lambda>ordered p. AList.update (fst p) (live_row st (Some (conn_name (snd p))) (fst p)) ordered)
           (registered_rows reg st) (remaining st)"

section \<open>Runs of the server\<close>

datatype event =
    Join sid string
  | SetWeight sid sid jsnum
  | DealerLogin sid string
  | Disconnect sid
  | Select sid jsval
  | OpenBets sid
  | CloseBets sid
  | Spin sid "rat list" rat
  | SpinTimeout

fun step :: "registry \<Rightarrow> event \<Rightarrow> state \<Rightarrow> error + state" where
  "step reg (Join sid identifier) st = Inr (join reg sid identifier st)"
| "step reg (SetWeight sid target w) st = Inr (setWeight sid target w st)"
| "step reg (DealerLogin sid c) st = Inr (dealerLogin reg sid c st)"
| "step reg (Disconnect sid) st = Inr (disconnect sid st)"
| "step reg (Select sid b) st = Inr (select sid b st)"
| "step reg (OpenBets sid) st = Inr (openBets sid st)"
| "step reg (CloseBets sid) st = Inr (closeBets sid st)"
| "step reg (Spin sid clientRandoms r) st = spin sid clientRandoms r st"
| "step reg SpinTimeout st = Inr (spin_timeout st)"

text \<open>A run handles the events in order and ends at the first uncaught exception.\<close>

fun run :: "registry \<Rightarrow> event list \<Rightarrow> state \<Rightarrow> error + state" where
  "run reg [] st = Inr st"
| "run reg (e # es) st =
     (case step reg e st of Inl x \<Rightarrow> Inl x | Inr st' \<Rightarrow> run reg es st')"

section \<open>The notions of the specification\<close>

text \<open>
  The definitions of this section are not translations of code: they say in terms of the
  ledger what the specification says in words, to be compared with what the spin
  computes. An entry of the ledger bets a number when its normalised bet is that number,
  and a colour when its normalised bet is that string.
\<close>

definition bets_number :: "nat \<Rightarrow> sid \<times> selection \<Rightarrow> bool" where
  "bets_number n p = (normalize (sel_bet (snd p)) = JNum (Num (of_nat n)))"

definition bets_colour :: "string \<Rightarrow> sid \<times> selection \<Rightarrow> bool" where
  "bets_colour c p = (normalize (sel_bet (snd p)) = JStr c)"

text \<open>
  A bettor covers a number: a numeric bettor covers exactly their number, a colour bettor
  covers every number of that colour. A bettor is an entry that covers some number of
  the wheel.
\<close>

definition covers :: "nat \<Rightarrow> sid \<times> selection \<Rightarrow> bool" where
  "covers n p =
     (bets_number n p \<or> (nat_is_red n \<and> bets_colour ''red'' p)
      \<or> (nat_is_black n \<and> bets_colour ''black'' p))"

definition is_bettor :: "sid \<times> selection \<Rightarrow> bool" where
  "is_bettor p = (\<exists>n \<in> {0..36}. covers n p)"

text \<open>A high-weight bettor has weight 2 or more; the count of those covering a number.\<close>

definition high :: "(sid \<rightharpoonup> rat) \<Rightarrow> sid \<times> selection \<Rightarrow> bool" where
  "high W p = (2 \<le> weight_of W (fst p))"

definition high_cover_count :: "(sid \<rightharpoonup> rat) \<Rightarrow> (sid \<times> selection) list \<Rightarrow> nat \<Rightarrow> nat" where
  "high_cover_count W sels n = length (filter (\<lambda>p. covers n p \<and> high W p) sels)"

text \<open>
  The weight of a number under the normal rule, in the words of the specification: 1 when
  no bettor covers it; 0 when every covering bettor has weight at most 0; otherwise 1 plus
  the sum of the positive weights of the covering bettors.
\<close>

definition claimed_weight :: "(sid \<rightharpoonup> rat) \<Rightarrow> (sid \<times> selection) list \<Rightarrow> nat \<Rightarrow> rat" where
  "claimed_weight W sels n =
     (let cov = filter (covers n) sels
      in if cov = [] then 1
         else if \<forall>p \<in> set cov. weight_of W (fst p) \<le> 0 then 0
         else 1 + sum_list (map (\<lambda>p. weight_of W (fst p))
                              (filter (\<lambda>p. 0 < weight_of W (fst p)) cov)))"

text \<open>
  The leaderboard in the words of the specification. A registered user is shown under the
  id of the active connection when the status says connected and that connection is
  live, and under the pseudo-key of the code otherwise; the guests are the connections
  without a code of the registry.
\<close>

definition active_sid :: "state \<Rightarrow> code \<Rightarrow> sid option" where
  "active_sid st c =
     (case usersStatus st c of
        None \<Rightarrow> None
      | Some s \<Rightarrow>
          if connected s then
            (case truthy (socketId s) of
               None \<Rightarrow> None
             | Some sid \<Rightarrow> if map_of (connectedSockets st) sid \<noteq> None then Some sid else None)
          else None)"

definition registered_key :: "state \<Rightarrow> code \<Rightarrow> string" where
  "registered_key st c = (case active_sid st c of Some sid \<Rightarrow> sid | None \<Rightarrow> ''u:'' @ c)"

definition registered_row :: "registry \<Rightarrow> state \<Rightarrow> code \<Rightarrow> row" where
  "registered_row reg st c =
     (case active_sid st c of
        Some sid \<Rightarrow> live_row st (usersByCode reg c) sid
      | None \<Rightarrow> \<lparr>row_name = usersByCode reg c, row_bet = JNull, row_connected = False,
                 row_weight = None\<rparr>)"

definition guests :: "state \<Rightarrow> (sid \<times> conn) list" where
  "guests st =
     filter (\<lambda>p. case truthy (conn_code (snd p)) of None \<Rightarrow> True | Some c \<Rightarrow> usersStatus st c = None)
       (connectedSockets st)"

definition guest_row :: "state \<Rightarrow> sid \<times> conn \<Rightarrow> string \<times> row" where
  "guest_row st p = (fst p, live_row st (Some (conn_name (snd p))) (fst p))"

text \<open>An entry on which the first loop of the spin throws: a fraction between 0 and 36.\<close>

definition fractional_bet :: "sid \<times> selection \<Rightarrow> bool" where
  "fractional_bet p =
     (in_table_range (normalize (sel_bet (snd p))) \<and> table_index (normalize (sel_bet (snd p))) = None)"

text \<open>The two events that can claim the dealer slot.\<close>

definition claim_event :: "event \<Rightarrow> bool" where
  "claim_event e = (case e of Join _ _ \<Rightarrow> True | DealerLogin _ _ \<Rightarrow> True | _ \<Rightarrow> False)"

text \<open>Abbreviations for the proofs: the positive part of a weight, the colour list of a number.\<close>

definition pos_weight :: "(sid \<rightharpoonup> rat) \<Rightarrow> sid \<Rightarrow> rat" where
  "pos_weight W sid = (if 0 < weight_of W sid then weight_of W sid else 0)"

definition colour_sids :: "bettors \<Rightarrow> nat \<Rightarrow> sid list" where
  "colour_sids B n = (if nat_is_red n then bettorsRed B else if nat_is_black n then bettorsBlack B else [])"

section \<open>A table for the worked examples\<close>

text \<open>A registry of three users, the first of them the dealer.\<close>

definition ex_registry :: registry where
  "ex_registry =
     \<lparr>usersByCode = [''100001'' \<mapsto> ''Dealer'', ''100002'' \<mapsto> ''Ann'', ''100003'' \<mapsto> ''Bob''],
      usersOrder = [''100001'', ''100002'', ''100003''],
      DEALER_CODE = Some ''100001''\<rparr>"

text \<open>A table with dealer \<open>D\<close>, the window open, a given ledger and given weights.\<close>

definition ex_table :: "(sid \<times> selection) list \<Rightarrow> (sid \<rightharpoonup> rat) \<Rightarrow> state" where
  "ex_table sels W =
     (init_state ex_registry)\<lparr>dealerSocket := Some ''D'', betsOpen := True,
                               selections := sels, weightBySocket := W\<rparr>"

definition on_number :: "string \<Rightarrow> rat \<Rightarrow> selection" where
  "on_number nm q = \<lparr>sel_name = Some nm, sel_bet = JNum (Num q)\<rparr>"

definition on_string :: "string \<Rightarrow> string \<Rightarrow> selection" where
  "on_string nm s = \<lparr>sel_name = Some nm, sel_bet = JStr s\<rparr>"

text \<open>The state in which a spin that drew \<open>w\<close> leaves the table.\<close>

definition after_spin :: "state \<Rightarrow> jsnum \<Rightarrow> (sid \<times> outcome) list \<Rightarrow> state" where
  "after_spin st w res =
     st\<lparr>spinning := True, betsOpen := False,
        lastSpinResult := Some \<lparr>winningNumber = w, results = res\<rparr>\<rparr>"

text \<open>
  States reached from the initial one: the dealer has joined; has opened the window; Ann
  has joined as connection \<open>A\<close>.
\<close>

definition ex_joined :: state where
  "ex_joined = join ex_registry ''D'' ''100001'' (init_state ex_registry)"

definition ex_open :: state where
  "ex_open = openBets ''D'' ex_joined"

definition ex_seated :: state where
  "ex_seated = join ex_registry ''A'' ''100002'' ex_open"

text \<open>Ann bets 5, the dealer leaves, and Ann logs in as dealer.\<close>

definition ex_dealer_with_bet :: state where
  "ex_dealer_with_bet =
     dealerLogin ex_registry ''A'' ''100001''
       (disconnect ''D'' (select ''A'' (JNum (Num 5)) ex_seated))"


text \<open>One connection joins with the code of Ann and then with the code of Bob.\<close>

definition ex_rejoined :: state where
  "ex_rejoined =
     join ex_registry ''A'' ''100003'' (join ex_registry ''A'' ''100002'' (init_state ex_registry))"

section \<open>Facts about the spin\<close>

text \<open>
  A spin of the dealer while none is running either throws while it collects the bettors
  or commits: it stores the winning number and the classification of every entry of the
  ledger, closes the window and sets the guard.
\<close>

lemma spin_commits:
  "dealerSocket st = Some d \<Longrightarrow> \<not> spinning st \<Longrightarrow> spin d cr r st = Inr st' \<Longrightarrow>
   \<exists>B. collect_bettors (selections st) no_bettors = Inr B \<and>
       st' = st\<lparr>spinning := True, betsOpen := False,
                lastSpinResult :=
                  Some \<lparr>winningNumber = choose_winner (weightBySocket st) B (average cr) r,
                        results = spin_results (choose_winner (weightBySocket st) B (average cr) r)
                                    (selections st)\<rparr>\<rparr>"
  by (auto simp: spin_def Let_def split: sum.splits)

lemma spin_fields:
  assumes "spin sid cr r st = Inr st'"
  shows "dealerSocket st' = dealerSocket st" and "selections st' = selections st"
    and "betsOpen st' \<Longrightarrow> betsOpen st"
  using assms by (auto simp: spin_def Let_def split: if_splits sum.splits)

lemma spin_results_fold:
  "distinct (map fst sels) \<Longrightarrow>
   map_of (foldl (\<lambda>res p. AList.update (fst p) (classify w (sel_bet (snd p))) res) acc sels) sid =
     (case map_of sels sid of None \<Rightarrow> map_of acc sid | Some e \<Rightarrow> Some (classify w (sel_bet e)))"
proof (induction sels arbitrary: acc)
  case Nil
  show ?case by simp
next
  case (Cons p ps)
  obtain k e where p: "p = (k, e)" by (cases p)
  from Cons.prems have d: "distinct (map fst ps)" and nk: "k \<notin> fst ` set ps" by (auto simp: p)
  from nk have none: "map_of ps k = None" by (simp add: map_of_eq_None_iff)
  show ?case
    using Cons.IH [OF d, of "AList.update k (classify w (sel_bet e)) acc"] none
    by (auto simp: p update_conv' split: option.splits)
qed

lemma spin_results_lookup:
  "distinct (map fst sels) \<Longrightarrow> map_of sels sid = Some e \<Longrightarrow>
   map_of (spin_results w sels) sid = Some (classify w (sel_bet e))"
  by (simp add: spin_results_def spin_results_fold)

subsection \<open>Colours\<close>

lemma nat_is_red_iff:
  "nat_is_red n \<longleftrightarrow> n \<in> {1,3,5,7,9,12,14,16,18,19,21,23,25,27,30,32,34,36}"
  by (auto simp: nat_is_red_def isRed_def red_numbers_def)

lemma nat_is_black_iff: "nat_is_black n \<longleftrightarrow> n \<noteq> 0 \<and> \<not> nat_is_red n"
  by (simp add: nat_is_black_def isBlack_def nat_is_red_def)

lemma red_set: "{n. n \<le> 36 \<and> nat_is_red n} = {1,3,5,7,9,12,14,16,18,19,21,23,25,27,30,32,34,36}"
  by (auto simp: nat_is_red_iff)

lemma black_set:
  "{n. n \<le> 36 \<and> nat_is_black n} = {2,4,6,8,10,11,13,15,17,20,22,24,26,28,29,31,33,35}"
proof (rule set_eqI)
  fix n :: nat
  show "n \<in> {n. n \<le> 36 \<and> nat_is_black n}
          \<longleftrightarrow> n \<in> {2,4,6,8,10,11,13,15,17,20,22,24,26,28,29,31,33,35}"
    by (simp add: nat_is_black_iff nat_is_red_iff) arith
qed

lemma not_red_zero: "\<not> isRed (Num 0)"
  by (simp add: isRed_def red_numbers_def)

lemma red_not_black: "\<not> (nat_is_red n \<and> nat_is_black n)"
  by (simp add: nat_is_black_iff)


subsection \<open>Normalised bets\<close>

lemma normalize_num: "normalize (JNum x) = JNum x"
  by (simp add: normalize_def)

lemma normalize_empty: "normalize (JStr '''') = JNum (Num 0)"
  by (simp add: normalize_def string_to_number_def trim_def)


lemma classify_cases:
  "(classify w raw = WIN \<longleftrightarrow> (w \<noteq> NaN \<and> normalize raw = JNum w)) \<and>
   (classify w raw = COLOR_ONLY \<longleftrightarrow>
      (normalize raw = JStr ''red'' \<and> isRed w) \<or> (normalize raw = JStr ''black'' \<and> isBlack w)) \<and>
   (classify w raw = COLOR \<longleftrightarrow>
      (\<exists>n. normalize raw = JNum n \<and> \<not> num_eq n w \<and>
           ((isRed n \<and> isRed w) \<or> (isBlack n \<and> isBlack w))))"
  by (cases "normalize raw") (auto simp: classify_def Let_def num_eq_def split: jsval.splits)

lemma classify_zero:
  "normalize raw = JNum (Num 0) \<Longrightarrow> classify w raw = (if w = Num 0 then WIN else LOSE)"
  by (auto simp: classify_def Let_def num_eq_def isBlack_def not_red_zero)

subsection \<open>The collected bettors\<close>

text \<open>
  After the first loop, \<open>bettorsByNumber[n]\<close> holds the connections whose bet is the
  number \<open>n\<close> and the two colour lists hold those whose bet is that colour, in the order
  of the ledger.
\<close>

lemma table_index_Some:
  "in_table_range b \<Longrightarrow> table_index b = Some m \<Longrightarrow> b = JNum (Num (of_nat m)) \<and> m \<le> 36"
proof (induction b rule: table_index.induct)
  case (1 q)
  from "1.prems"(1) have r: "0 \<le> q" "q \<le> 36" by simp_all
  from "1.prems"(2) obtain k where k: "q = of_int k" and m: "m = nat \<lfloor>q\<rfloor>"
    by (auto split: if_splits)
  from k have fl: "\<lfloor>q\<rfloor> = k" by simp
  from r k have k0: "0 \<le> k" and k36: "k \<le> 36" by simp_all
  have "(of_nat m :: rat) = of_int k" using k0 m fl by simp
  then show ?case using k k36 m fl by simp
qed simp_all

lemma in_range_of_nat: "in_table_range (JNum (Num (of_nat n))) \<longleftrightarrow> n \<le> 36"
  by simp

lemma table_index_of_nat: "table_index (JNum (Num (of_nat n))) = Some n"
  by simp

lemma add_bettor_result:
  assumes "add_bettor B0 p = Inr B" and "length (bettorsByNumber B0) = 37"
  shows "length (bettorsByNumber B) = 37"
    and "n < 37 \<Longrightarrow> bettorsByNumber B ! n = bettorsByNumber B0 ! n @ (if bets_number n p then [fst p] else [])"
    and "bettorsRed B = bettorsRed B0 @ (if bets_colour ''red'' p then [fst p] else [])"
    and "bettorsBlack B = bettorsBlack B0 @ (if bets_colour ''black'' p then [fst p] else [])"
    and "anyNumeric B = (anyNumeric B0 \<or> in_table_range (normalize (sel_bet (snd p))))"
    and "anyColor B = (anyColor B0 \<or> bets_colour ''red'' p \<or> bets_colour ''black'' p)"
proof -
  let ?b = "normalize (sel_bet (snd p))"
  show "length (bettorsByNumber B) = 37"
    using assms by (auto simp: add_bettor_def Let_def split: if_splits option.splits)
  show "bettorsRed B = bettorsRed B0 @ (if bets_colour ''red'' p then [fst p] else [])"
    using assms by (auto simp: add_bettor_def Let_def bets_colour_def split: if_splits option.splits)
  show "bettorsBlack B = bettorsBlack B0 @ (if bets_colour ''black'' p then [fst p] else [])"
    using assms by (auto simp: add_bettor_def Let_def bets_colour_def split: if_splits option.splits)
  show "anyNumeric B = (anyNumeric B0 \<or> in_table_range ?b)"
    using assms by (auto simp: add_bettor_def Let_def split: if_splits option.splits)
  show "anyColor B = (anyColor B0 \<or> bets_colour ''red'' p \<or> bets_colour ''black'' p)"
    using assms by (auto simp: add_bettor_def Let_def bets_colour_def split: if_splits option.splits)
  show "bettorsByNumber B ! n = bettorsByNumber B0 ! n @ (if bets_number n p then [fst p] else [])"
    if n: "n < 37"
  proof (cases "in_table_range ?b")
    case True
    with assms(1) obtain m where m: "table_index ?b = Some m"
      and B: "B = B0\<lparr>anyNumeric := True,
                 bettorsByNumber := (bettorsByNumber B0)[m := bettorsByNumber B0 ! m @ [fst p]]\<rparr>"
      by (auto simp: add_bettor_def Let_def split: option.splits)
    from table_index_Some [OF True m] have b: "?b = JNum (Num (of_nat m))" and m36: "m \<le> 36" by auto
    have "bets_number n p \<longleftrightarrow> m = n" by (auto simp: bets_number_def b)
    then show ?thesis using n m36 assms(2) by (auto simp: B nth_list_update)
  next
    case False
    then have nb: "\<not> bets_number n p" using n by (auto simp: bets_number_def)
    from False assms(1) have "bettorsByNumber B = bettorsByNumber B0"
      by (auto simp: add_bettor_def Let_def split: if_splits)
    then show ?thesis using nb by simp
  qed
qed

lemma add_bettor_fails: "add_bettor B0 p = Inl x \<longleftrightarrow> fractional_bet p"
  by (cases x) (auto simp: add_bettor_def fractional_bet_def Let_def split: option.splits)

lemma collect_bettors_fails:
  "(\<exists>x. collect_bettors sels B0 = Inl x) \<longleftrightarrow> (\<exists>p \<in> set sels. fractional_bet p)"
proof (induction sels arbitrary: B0)
  case Nil
  show ?case by simp
next
  case (Cons p ps)
  show ?case
  proof (cases "add_bettor B0 p")
    case (Inl x)
    then show ?thesis using add_bettor_fails [of B0 p x] by auto
  next
    case (Inr B1)
    then have "\<not> fractional_bet p" using add_bettor_fails [of B0 p TypeError] by simp
    then show ?thesis using Inr Cons.IH [of B1] by simp
  qed
qed

lemma collect_bettors_result:
  assumes "collect_bettors sels B0 = Inr B" and "length (bettorsByNumber B0) = 37"
  shows "length (bettorsByNumber B) = 37
       \<and> (\<forall>n<37. bettorsByNumber B ! n = bettorsByNumber B0 ! n @ map fst (filter (bets_number n) sels))
       \<and> bettorsRed B = bettorsRed B0 @ map fst (filter (bets_colour ''red'') sels)
       \<and> bettorsBlack B = bettorsBlack B0 @ map fst (filter (bets_colour ''black'') sels)
       \<and> anyNumeric B = (anyNumeric B0 \<or> (\<exists>p \<in> set sels. in_table_range (normalize (sel_bet (snd p)))))
       \<and> anyColor B = (anyColor B0 \<or> (\<exists>p \<in> set sels. bets_colour ''red'' p \<or> bets_colour ''black'' p))"
  using assms
proof (induction sels arbitrary: B0)
  case Nil
  then show ?case by simp
next
  case (Cons p ps)
  from Cons.prems(1) obtain B1 where a: "add_bettor B0 p = Inr B1" and c: "collect_bettors ps B1 = Inr B"
    by (auto split: sum.splits)
  note r = add_bettor_result [OF a Cons.prems(2)]
  from Cons.IH [OF c r(1)] show ?case
    using r(2-) by auto
qed

lemma number_not_colour: "\<not> (bets_number n p \<and> bets_colour c p)"
  by (auto simp: bets_number_def bets_colour_def)

lemma collected_lists:
  assumes "collect_bettors sels no_bettors = Inr B" and "n < 37"
  shows "bettorsByNumber B ! n = map fst (filter (bets_number n) sels)"
    and "colour_sids B n = map fst (filter (\<lambda>p. (nat_is_red n \<and> bets_colour ''red'' p)
                                              \<or> (nat_is_black n \<and> bets_colour ''black'' p)) sels)"
proof -
  have len: "length (bettorsByNumber no_bettors) = 37" by (simp add: no_bettors_def)
  note cr = collect_bettors_result [OF assms(1) len]
  from cr assms(2) show "bettorsByNumber B ! n = map fst (filter (bets_number n) sels)"
    by (simp add: no_bettors_def)
  from cr show "colour_sids B n = map fst (filter (\<lambda>p. (nat_is_red n \<and> bets_colour ''red'' p)
                                              \<or> (nat_is_black n \<and> bets_colour ''black'' p)) sels)"
    by (auto simp: colour_sids_def no_bettors_def red_not_black nat_is_black_iff)
qed

lemma collect_none: "collect_bettors [] no_bettors = Inr no_bettors"
  by simp

lemma covers_is_bettor: "n \<le> 36 \<Longrightarrow> covers n p \<Longrightarrow> is_bettor p"
  by (auto simp: is_bettor_def)

lemma bettor_sets_flag:
  assumes "collect_bettors sels no_bettors = Inr B" and "p \<in> set sels" and "is_bettor p"
  shows "anyNumeric B \<or> anyColor B"
proof -
  have len: "length (bettorsByNumber no_bettors) = 37" by (simp add: no_bettors_def)
  note cr = collect_bettors_result [OF assms(1) len]
  from assms(3) obtain n where n: "n \<le> 36" "covers n p" by (auto simp: is_bettor_def)
  from n(2) consider "bets_number n p" | "bets_colour ''red'' p \<or> bets_colour ''black'' p"
    by (auto simp: covers_def)
  then show ?thesis
  proof cases
    case 1
    with n(1) have "in_table_range (normalize (sel_bet (snd p)))" by (simp add: bets_number_def)
    with cr assms(2) show ?thesis by blast
  next
    case 2
    with cr assms(2) show ?thesis by blast
  qed
qed

text \<open>
  The spin throws exactly when the ledger holds a number between 0 and 36 that is not an
  integer: \<open>bettorsByNumber[3.5]\<close> is undefined. The theorems on the result of a spin
  below therefore speak of a spin that returns.
\<close>

lemma spin_throws_iff:
  assumes "dealerSocket st = Some d" and "\<not> spinning st"
  shows "(\<exists>x. spin d clientRandoms r st = Inl x) \<longleftrightarrow> (\<exists>p \<in> set (selections st). fractional_bet p)"
proof -
  have "(\<exists>x. spin d clientRandoms r st = Inl x)
      \<longleftrightarrow> (\<exists>x. collect_bettors (selections st) no_bettors = Inl x)"
    using assms by (auto simp: spin_def Let_def split: sum.splits)
  then show ?thesis by (simp only: collect_bettors_fails)
qed

lemma ex_fractional_bet_throws:
  "spin ''D'' [1/2] (1/2) (ex_table [(''A'', on_number ''Ann'' (7/2))] Map.empty) = Inl TypeError"
proof -
  have f: "\<lfloor>7 / 2 :: rat\<rfloor> = 3" by (simp add: floor_eq_iff)
  have "table_index (JNum (Num (7 / 2))) = None"
    unfolding table_index.simps f by simp
  then have "add_bettor no_bettors (''A'', on_number ''Ann'' (7 / 2)) = Inl TypeError"
    by (simp add: add_bettor_def normalize_num on_number_def del: table_index.simps)
  then show ?thesis
    by (simp add: spin_def ex_table_def init_state_def)
qed

subsection \<open>Evaluating a draw\<close>

lemma upt37:
  "[0..<37] = [0,1,2,3,4,5,6,7,8,9,10,11,12,13,14,15,16,17,18,19,20,21,22,23,24,25,26,27,28,
               29,30,31,32,33,34,35,36]"
  by (simp add: upt_rec)

lemmas draw_defs =
  choose_winner_def normal_draw_def weights_def number_weight_def add_pos_def weight_of_def
  hw_entries_def highWeightNumbers_def hw_numeric_def hw_colour_def high_count_def hw_add_def
  no_bettors_def upt37 nat_is_red_iff nat_is_black_iff average_def floor37_def Let_def


lemma no_bets_winner: "choose_winner W no_bettors avg r = floor37 avg"
  by (simp add: choose_winner_def no_bettors_def)

section \<open>Facts about the handlers\<close>

lemma join_fields:
  "betsOpen (join reg sid i st) = betsOpen st"
  "selections (join reg sid i st) = selections st"
  "spinning (join reg sid i st) = spinning st"
  "lastSpinResult (join reg sid i st) = lastSpinResult st"
  "weightBySocket (join reg sid i st) = weightBySocket st"
  by (simp_all add: join_def join_track_def join_identify_def Let_def split: option.splits)

lemma join_dealer:
  "dealerSocket (join reg sid i st) =
     (if dealerSocket st = None \<and> is_code i \<and> is_dealer_code reg i
         \<and> (\<exists>nm. usersByCode reg i = Some nm \<and> nm \<noteq> [])
      then Some sid else dealerSocket st)"
  by (auto simp: join_def join_track_def join_identify_def Let_def split: option.splits)

lemma join_socket_data:
  "is_code i \<Longrightarrow> usersByCode reg i = Some nm \<Longrightarrow> nm \<noteq> [] \<Longrightarrow>
   socket_data (join reg sid i st) sid = \<lparr>data_name = Some nm, data_code = Some i\<rparr>"
  by (simp add: join_def join_track_def join_identify_def Let_def truthy_def split: option.splits)

lemma dealerLogin_fields:
  "betsOpen (dealerLogin reg sid c st) = betsOpen st"
  "selections (dealerLogin reg sid c st) = selections st"
  "dealerSocket (dealerLogin reg sid c st) =
     (if dealerSocket st = None \<and> is_dealer_code reg c then Some sid else dealerSocket st)"
  by (simp_all add: dealerLogin_def)

lemma setWeight_fields:
  "betsOpen (setWeight sid t w st) = betsOpen st"
  "selections (setWeight sid t w st) = selections st"
  "dealerSocket (setWeight sid t w st) = dealerSocket st"
  by (simp_all add: setWeight_def)

lemma disconnect_fields:
  "betsOpen (disconnect sid st) = (betsOpen st \<and> dealerSocket st \<noteq> Some sid)"
  "selections (disconnect sid st) = AList.delete sid (selections st)"
  "dealerSocket (disconnect sid st) = (if dealerSocket st = Some sid then None else dealerSocket st)"
  by (simp_all add: disconnect_def Let_def split: option.splits)

lemma select_fields:
  "betsOpen (select sid b st) = betsOpen st"
  "dealerSocket (select sid b st) = dealerSocket st"
  "selections (select sid b st) =
     (if betsOpen st \<and> dealerSocket st \<noteq> Some sid
      then AList.update sid \<lparr>sel_name = data_name (socket_data st sid), sel_bet = b\<rparr> (selections st)
      else selections st)"
  by (simp_all add: select_def)

lemma openBets_fields:
  "betsOpen (openBets sid st) = (betsOpen st \<or> dealerSocket st = Some sid)"
  "selections (openBets sid st) = selections st"
  "dealerSocket (openBets sid st) = dealerSocket st"
  by (auto simp: openBets_def)

lemma closeBets_fields:
  "betsOpen (closeBets sid st) = (betsOpen st \<and> dealerSocket st \<noteq> Some sid)"
  "selections (closeBets sid st) = selections st"
  "dealerSocket (closeBets sid st) = dealerSocket st"
  by (auto simp: closeBets_def)

lemma spin_timeout_fields:
  "betsOpen (spin_timeout st) = betsOpen st"
  "selections (spin_timeout st) = selections st"
  "dealerSocket (spin_timeout st) = dealerSocket st"
  by (simp_all add: spin_timeout_def)

lemmas handler_fields =
  join_fields join_dealer dealerLogin_fields setWeight_fields disconnect_fields select_fields
  openBets_fields closeBets_fields spin_timeout_fields

lemma step_dealer_cases:
  assumes "step reg e s = Inr s'"
  shows "dealerSocket s' = dealerSocket s
       \<or> (dealerSocket s = None \<and> (\<exists>d c. dealerSocket s' = Some d \<and> is_dealer_code reg c
             \<and> (e = Join d c \<or> e = DealerLogin d c)))
       \<or> (\<exists>d. dealerSocket s = Some d \<and> dealerSocket s' = None \<and> e = Disconnect d \<and> \<not> betsOpen s')"
  using assms by (cases e) (auto simp: handler_fields dest: spin_fields split: if_splits)

lemma step_opens:
  assumes "step reg e s = Inr s'" and "\<not> betsOpen s" and "betsOpen s'"
  shows "\<exists>sid. e = OpenBets sid \<and> dealerSocket s = Some sid"
  using assms by (cases e) (auto simp: handler_fields dest: spin_fields split: if_splits)

lemma step_window_inv:
  assumes "step reg e s = Inr s'" and "betsOpen s \<longrightarrow> dealerSocket s \<noteq> None"
  shows "betsOpen s' \<longrightarrow> dealerSocket s' \<noteq> None"
  using assms by (cases e) (auto simp: handler_fields dest: spin_fields split: if_splits)

lemma run_window_inv:
  "run reg es s = Inr s' \<Longrightarrow> (betsOpen s \<longrightarrow> dealerSocket s \<noteq> None)
     \<Longrightarrow> betsOpen s' \<longrightarrow> dealerSocket s' \<noteq> None"
proof (induction es arbitrary: s)
  case Nil
  then show ?case by simp
next
  case (Cons e es)
  from Cons.prems(1) obtain s1 where e: "step reg e s = Inr s1" and r: "run reg es s1 = Inr s'"
    by (auto split: sum.splits)
  from step_window_inv [OF e Cons.prems(2)] Cons.IH [OF r] show ?case by blast
qed

lemma run_claims_keep_dealer:
  "run reg es s = Inr s' \<Longrightarrow> list_all claim_event es \<Longrightarrow> dealerSocket s = Some d
     \<Longrightarrow> dealerSocket s' = Some d"
proof (induction es arbitrary: s)
  case Nil
  then show ?case by simp
next
  case (Cons e es)
  from Cons.prems(1) obtain s1 where e: "step reg e s = Inr s1" and r: "run reg es s1 = Inr s'"
    by (auto split: sum.splits)
  from Cons.prems(2) have ce: "claim_event e" and rest: "list_all claim_event es" by simp_all
  from e ce Cons.prems(3) have "dealerSocket s1 = Some d"
    by (cases e) (auto simp: claim_event_def handler_fields)
  from Cons.IH [OF r rest this] show ?case .
qed

lemma step_dealer_entry:
  assumes "step reg e s = Inr s'" and "dealerSocket s = Some d" and "e \<noteq> Disconnect d"
  shows "dealerSocket s' = Some d \<and> map_of (selections s') d = map_of (selections s) d"
proof (cases e)
  case (Spin sid cr r)
  with assms(1) have "spin sid cr r s = Inr s'" by simp
  from spin_fields(1,2) [OF this] assms(2) show ?thesis by simp
qed (use assms in \<open>auto simp: handler_fields update_conv' delete_conv'\<close>)

text \<open>
  The ledger is an object: its keys stay distinct in every state a run reaches.
\<close>

lemma step_selections_distinct:
  assumes "step reg e s = Inr s'" and "distinct (map fst (selections s))"
  shows "distinct (map fst (selections s'))"
proof (cases e)
  case (Spin sid cr r)
  with assms(1) have "spin sid cr r s = Inr s'" by simp
  from spin_fields(2) [OF this] assms(2) show ?thesis by simp
qed (use assms in \<open>auto simp: handler_fields distinct_update distinct_delete\<close>)

lemma run_selections_distinct:
  "run reg es s = Inr s' \<Longrightarrow> distinct (map fst (selections s))
     \<Longrightarrow> distinct (map fst (selections s'))"
proof (induction es arbitrary: s)
  case Nil
  then show ?case by simp
next
  case (Cons e es)
  from Cons.prems(1) obtain s1 where e: "step reg e s = Inr s1" and r: "run reg es s1 = Inr s'"
    by (auto split: sum.splits)
  from Cons.IH [OF r step_selections_distinct [OF e Cons.prems(2)]] show ?case .
qed

lemma reachable_selections_distinct:
  assumes "run reg es (init_state reg) = Inr st"
  shows "distinct (map fst (selections st))"
  using run_selections_distinct [OF assms] by (simp add: init_state_def)

subsection \<open>The example table\<close>

lemma ex_code: "is_code ''100001''" "is_dealer_code ex_registry ''100001''"
  "usersByCode ex_registry ''100001'' = Some ''Dealer''"
  by (simp_all add: is_code_def is_digit_in_def digit_of_def is_dealer_code_def ex_registry_def)

lemma ex_code2: "is_code ''100002''" "\<not> is_dealer_code ex_registry ''100002''"
  "usersByCode ex_registry ''100002'' = Some ''Ann''"
  by (simp_all add: is_code_def is_digit_in_def digit_of_def is_dealer_code_def ex_registry_def)

lemma ex_code3: "is_code ''100003''" "\<not> is_dealer_code ex_registry ''100003''"
  "usersByCode ex_registry ''100003'' = Some ''Bob''"
  by (simp_all add: is_code_def is_digit_in_def digit_of_def is_dealer_code_def ex_registry_def)

lemma ex_joined_fields: "dealerSocket ex_joined = Some ''D''" "\<not> betsOpen ex_joined"
  "selections ex_joined = []"
  by (simp_all add: ex_joined_def handler_fields ex_code init_state_def)

lemma ex_joined_idle: "\<not> spinning ex_joined" "weightBySocket ex_joined = Map.empty"
  by (simp_all add: ex_joined_def handler_fields init_state_def)

lemma ex_open_fields: "dealerSocket ex_open = Some ''D''" "betsOpen ex_open" "selections ex_open = []"
  by (simp_all add: ex_open_def handler_fields ex_joined_fields)

lemma ex_seated_fields: "dealerSocket ex_seated = Some ''D''" "betsOpen ex_seated"
  "selections ex_seated = []"
  "socket_data ex_seated ''A'' = \<lparr>data_name = Some ''Ann'', data_code = Some ''100002''\<rparr>"
  by (simp_all add: ex_seated_def handler_fields ex_open_fields join_socket_data ex_code2)


lemma ex_rejoined_fields:
  "connectedSockets ex_rejoined = [(''A'', \<lparr>conn_name = ''Bob'', conn_code = Some ''100003''\<rparr>)]"
  "usersStatus ex_rejoined ''100001'' = Some \<lparr>connected = False, socketId = None\<rparr>"
  "usersStatus ex_rejoined ''100002'' = Some \<lparr>connected = True, socketId = Some ''A''\<rparr>"
  "usersStatus ex_rejoined ''100003'' = Some \<lparr>connected = True, socketId = Some ''A''\<rparr>"
  "selections ex_rejoined = []" "weightBySocket ex_rejoined = Map.empty"
  by (simp_all add: ex_rejoined_def join_def join_track_def join_identify_def Let_def ex_code2
        ex_code3 truthy_def init_state_def init_status_def ex_registry_def)



lemma ex_spin_empty:
  "spin ''D'' [1/2] 0 (ex_table [(''A'', on_string ''Ann'' '''')] Map.empty)
     = Inr (after_spin (ex_table [(''A'', on_string ''Ann'' '''')] Map.empty) (Num 0) [(''A'', WIN)])"
proof -
  have c: "collect_bettors [(''A'', on_string ''Ann'' '''')] no_bettors
     = Inr (no_bettors\<lparr>anyNumeric := True, bettorsByNumber := (replicate 37 [])[0 := [''A'']]\<rparr>)"
    by (simp add: add_bettor_def normalize_empty no_bettors_def on_string_def)
  have w: "choose_winner Map.empty
       (no_bettors\<lparr>anyNumeric := True, bettorsByNumber := (replicate 37 [])[0 := [''A'']]\<rparr>)
       (average [1/2]) 0 = Num 0"
    by (simp add: draw_defs)
  have r: "spin_results (Num 0) [(''A'', on_string ''Ann'' '''')] = [(''A'', WIN)]"
    by (simp add: spin_results_def classify_zero normalize_empty on_string_def)
  show ?thesis
    by (simp add: spin_def ex_table_def init_state_def after_spin_def c w r
             del: collect_bettors.simps)
qed


section \<open>The priority rule\<close>

text \<open>
  The cell of \<open>highWeightNumbers\<close> for a number is the count of the bettors of weight 2
  or more that cover it, and the key is absent when that count is zero.
\<close>

lemma high_count_filter:
  "high_count W sids = length (filter (\<lambda>sid. 2 \<le> weight_of W sid) sids)"
proof -
  have "foldl (\<lambda>s sid. s + (if 2 \<le> weight_of W sid then 1 else 0)) a sids
          = a + length (filter (\<lambda>sid. 2 \<le> weight_of W sid) sids)" for a :: nat
    by (induction sids arbitrary: a) simp_all
  then show ?thesis by (simp add: high_count_def)
qed

lemma high_count_map:
  "high_count W (map fst (filter P sels)) = length (filter (\<lambda>p. P p \<and> high W p) sels)"
  by (induction sels) (simp_all add: high_count_filter high_def)

lemma hw_fold_length:
  "length (foldl (\<lambda>h n. if P n then hw_add h n (c n) else h) h [0..<k]) = length h"
  by (induction k) (simp_all add: hw_add_def)

lemma hw_fold_cell:
  "n < length h \<Longrightarrow>
   foldl (\<lambda>h n. if P n then hw_add h n (c n) else h) h [0..<k] ! n
     = (if n < k \<and> P n then Some ((case h ! n of None \<Rightarrow> 0 | Some x \<Rightarrow> x) + c n) else h ! n)"
proof (induction k)
  case 0
  show ?case by simp
next
  case (Suc k)
  let ?g = "foldl (\<lambda>h n. if P n then hw_add h n (c n) else h) h [0..<k]"
  have len: "length ?g = length h" by (rule hw_fold_length)
  show ?case
  proof (cases "n = k")
    case True
    with Suc show ?thesis by (simp add: hw_add_def len)
  next
    case False
    with Suc show ?thesis by (auto simp: hw_add_def len nth_list_update)
  qed
qed

lemma hw_numeric_cell:
  "n < 37 \<Longrightarrow> hw_numeric W B ! n =
     (if 0 < high_count W (bettorsByNumber B ! n) then Some (high_count W (bettorsByNumber B ! n))
      else None)"
  and hw_numeric_length: "length (hw_numeric W B) = 37"
  unfolding hw_numeric_def Let_def
  by (simp_all add: hw_fold_cell [where P = "\<lambda>n. 0 < high_count W (bettorsByNumber B ! n)"]
                    hw_fold_length [where P = "\<lambda>n. 0 < high_count W (bettorsByNumber B ! n)"])

lemma hw_colour_cell:
  "n < length h \<Longrightarrow> n < 37 \<Longrightarrow> hw_colour is_col k h ! n =
     (if 0 < k \<and> is_col n then Some ((case h ! n of None \<Rightarrow> 0 | Some x \<Rightarrow> x) + k) else h ! n)"
  and hw_colour_length: "length (hw_colour is_col k h) = length h"
  unfolding hw_colour_def
  by (simp_all add: hw_fold_cell [where c = "\<lambda>_. k"] hw_fold_length [where c = "\<lambda>_. k"])

lemma highWeightNumbers_cell:
  assumes "n < 37"
  shows "highWeightNumbers W B ! n =
     (let cnt = high_count W (bettorsByNumber B ! n)
              + (if nat_is_red n then high_count W (bettorsRed B) else 0)
              + (if nat_is_black n then high_count W (bettorsBlack B) else 0)
      in if 0 < cnt then Some cnt else None)"
  using assms red_not_black [of n]
  by (auto simp: highWeightNumbers_def Let_def hw_colour_cell hw_colour_length hw_numeric_length
        hw_numeric_cell)

lemma length_filter_disjoint:
  "(\<And>x. \<not> (P x \<and> Q x)) \<Longrightarrow>
   length (filter (\<lambda>x. P x \<or> Q x) xs) = length (filter P xs) + length (filter Q xs)"
  by (induction xs) auto

lemma highWeightNumbers_count:
  assumes "collect_bettors sels no_bettors = Inr B" and "n < 37"
  shows "highWeightNumbers W B ! n =
     (if 0 < high_cover_count W sels n then Some (high_cover_count W sels n) else None)"
proof -
  have len: "length (bettorsByNumber no_bettors) = 37" by (simp add: no_bettors_def)
  note cr = collect_bettors_result [OF assms(1) len]
  from cr assms(2) have bn: "bettorsByNumber B ! n = map fst (filter (bets_number n) sels)"
    by (simp add: no_bettors_def)
  from cr have br: "bettorsRed B = map fst (filter (bets_colour ''red'') sels)"
    and bb: "bettorsBlack B = map fst (filter (bets_colour ''black'') sels)"
    by (simp_all add: no_bettors_def)
  let ?N = "\<lambda>p. bets_number n p \<and> high W p"
  let ?R = "\<lambda>p. (nat_is_red n \<and> bets_colour ''red'' p) \<and> high W p"
  let ?K = "\<lambda>p. (nat_is_black n \<and> bets_colour ''black'' p) \<and> high W p"
  have split: "(\<lambda>p. covers n p \<and> high W p) = (\<lambda>p. ?N p \<or> (?R p \<or> ?K p))"
    by (auto simp: covers_def fun_eq_iff)
  have d1: "\<And>p. \<not> (?N p \<and> (?R p \<or> ?K p))" using number_not_colour by blast
  have d2: "\<And>p. \<not> (?R p \<and> ?K p)" using red_not_black by blast
  have "high_cover_count W sels n
      = length (filter ?N sels) + (length (filter ?R sels) + length (filter ?K sels))"
    unfolding high_cover_count_def split
    by (simp only: length_filter_disjoint [OF d1] length_filter_disjoint [OF d2])
  moreover have "length (filter ?R sels) = (if nat_is_red n then high_count W (bettorsRed B) else 0)"
    by (simp add: br high_count_map)
  moreover have "length (filter ?K sels) = (if nat_is_black n then high_count W (bettorsBlack B) else 0)"
    by (simp add: bb high_count_map)
  moreover have "length (filter ?N sels) = high_count W (bettorsByNumber B ! n)"
    by (simp add: bn high_count_map)
  ultimately show ?thesis
    by (simp add: highWeightNumbers_cell [OF assms(2)] Let_def)
qed

lemma hw_entries_filter:
  assumes "collect_bettors sels no_bettors = Inr B"
  shows "hw_entries (highWeightNumbers W B)
     = map (\<lambda>n. (n, high_cover_count W sels n)) (filter (\<lambda>n. 0 < high_cover_count W sels n) [0..<37])"
proof -
  have m: "map (\<lambda>n. case highWeightNumbers W B ! n of None \<Rightarrow> [] | Some c \<Rightarrow> [(n, c)]) [0..<37]
      = map (\<lambda>n. if 0 < high_cover_count W sels n then [(n, high_cover_count W sels n)] else []) [0..<37]"
    by (rule map_cong) (simp_all add: highWeightNumbers_count [OF assms])
  have c: "concat (map (\<lambda>n. if 0 < f n then [(n, f n)] else []) ns)
      = map (\<lambda>n. (n, f n)) (filter (\<lambda>n. 0 < f n) ns)" for f :: "nat \<Rightarrow> nat" and ns
    by (induction ns) simp_all
  show ?thesis unfolding hw_entries_def m c ..
qed


lemma high_cover_count_pos:
  "0 < high_cover_count W sels n \<longleftrightarrow> (\<exists>p \<in> set sels. covers n p \<and> high W p)"
  by (auto simp: high_cover_count_def filter_empty_conv)

text \<open>
  The loop over the entries stops at the first key whose cumulative share reaches \<open>r\<close>.
\<close>

lemma pick_high_Some:
  fixes f :: "nat \<Rightarrow> nat"
  assumes "pick_high r T acc (map (\<lambda>n. (n, f n)) (filter (\<lambda>n. 0 < f n) [lo..<hi])) = Some n"
    and "acc = of_nat (sum f {..<lo}) / T"
  shows "lo \<le> n \<and> n < hi \<and> 0 < f n \<and> r \<le> of_nat (sum f {..n}) / T
       \<and> (\<forall>m. lo \<le> m \<and> m < n \<and> 0 < f m \<longrightarrow> of_nat (sum f {..m}) / T < r)"
  using assms
proof (induction "hi - lo" arbitrary: lo acc)
  case 0
  then show ?case by simp
next
  case (Suc k)
  then have lt: "lo < hi" and k: "k = hi - Suc lo" by simp_all
  from lt have upt: "[lo..<hi] = lo # [Suc lo..<hi]" by (rule upt_conv_Cons)
  let ?es = "map (\<lambda>n. (n, f n)) (filter (\<lambda>n. 0 < f n) [Suc lo..<hi])"
  show ?case
  proof (cases "0 < f lo")
    case False
    then have acc': "acc = of_nat (sum f {..<Suc lo}) / T" using Suc.prems(2) by simp
    from False Suc.prems(1) have "pick_high r T acc ?es = Some n" by (simp add: upt)
    from Suc.hyps(1) [OF k this acc'] False show ?thesis
      by (auto simp: Suc_le_eq elim!: le_neq_trans [rotated] dest: le_neq_implies_less)
  next
    case True
    let ?acc' = "acc + of_nat (f lo) / T"
    have acc': "?acc' = of_nat (sum f {..<Suc lo}) / T"
      using Suc.prems(2) by (simp add: add_divide_distrib)
    have cum: "of_nat (sum f {..lo}) / T = ?acc'"
      using acc' by (simp add: lessThan_Suc_atMost)
    show ?thesis
    proof (cases "r \<le> ?acc'")
      case le: True
      with True Suc.prems(1) have "n = lo" by (simp add: upt)
      with True le lt cum show ?thesis by simp
    next
      case gt: False
      with True Suc.prems(1) have "pick_high r T ?acc' ?es = Some n" by (simp add: upt)
      from Suc.hyps(1) [OF k this acc']
      have ih: "Suc lo \<le> n" "n < hi" "0 < f n" "r \<le> of_nat (sum f {..n}) / T"
        "\<forall>m. Suc lo \<le> m \<and> m < n \<and> 0 < f m \<longrightarrow> of_nat (sum f {..m}) / T < r"
        by simp_all
      have "of_nat (sum f {..m}) / T < r" if "lo \<le> m" "m < n" "0 < f m" for m
      proof (cases "m = lo")
        case True
        with gt cum show ?thesis by simp
      next
        case False
        with that ih(5) show ?thesis by simp
      qed
      with ih show ?thesis by simp
    qed
  qed
qed

lemma pick_high_None:
  fixes f :: "nat \<Rightarrow> nat"
  assumes "pick_high r T acc (map (\<lambda>n. (n, f n)) (filter (\<lambda>n. 0 < f n) [lo..<hi])) = None"
    and "acc = of_nat (sum f {..<lo}) / T"
  shows "\<forall>m. lo \<le> m \<and> m < hi \<and> 0 < f m \<longrightarrow> of_nat (sum f {..m}) / T < r"
  using assms
proof (induction "hi - lo" arbitrary: lo acc)
  case 0
  then show ?case by simp
next
  case (Suc k)
  then have lt: "lo < hi" and k: "k = hi - Suc lo" by simp_all
  from lt have upt: "[lo..<hi] = lo # [Suc lo..<hi]" by (rule upt_conv_Cons)
  let ?es = "map (\<lambda>n. (n, f n)) (filter (\<lambda>n. 0 < f n) [Suc lo..<hi])"
  show ?case
  proof (cases "0 < f lo")
    case False
    then have acc': "acc = of_nat (sum f {..<Suc lo}) / T" using Suc.prems(2) by simp
    from False Suc.prems(1) have "pick_high r T acc ?es = None" by (simp add: upt)
    from Suc.hyps(1) [OF k this acc']
    have ih: "\<forall>m. Suc lo \<le> m \<and> m < hi \<and> 0 < f m \<longrightarrow> of_nat (sum f {..m}) / T < r" .
    show ?thesis
    proof (intro allI impI)
      fix m assume m: "lo \<le> m \<and> m < hi \<and> 0 < f m"
      with False have "m \<noteq> lo" by auto
      with m ih show "of_nat (sum f {..m}) / T < r" by simp
    qed
  next
    case True
    let ?acc' = "acc + of_nat (f lo) / T"
    have acc': "?acc' = of_nat (sum f {..<Suc lo}) / T"
      using Suc.prems(2) by (simp add: add_divide_distrib)
    have cum: "of_nat (sum f {..lo}) / T = ?acc'"
      using acc' by (simp add: lessThan_Suc_atMost)
    from True Suc.prems(1) have gt: "\<not> r \<le> ?acc'" and rest: "pick_high r T ?acc' ?es = None"
      by (simp_all add: upt Let_def split: if_splits)
    from Suc.hyps(1) [OF k rest acc']
    have ih: "\<forall>m. Suc lo \<le> m \<and> m < hi \<and> 0 < f m \<longrightarrow> of_nat (sum f {..m}) / T < r" .
    show ?thesis
    proof (intro allI impI)
      fix m assume m: "lo \<le> m \<and> m < hi \<and> 0 < f m"
      show "of_nat (sum f {..m}) / T < r"
      proof (cases "m = lo")
        case True
        with gt cum show ?thesis by simp
      next
        case False
        with m ih show ?thesis by simp
      qed
    qed
  qed
qed

lemma total_high_sum:
  fixes f :: "nat \<Rightarrow> nat"
  shows "foldl (\<lambda>s x. s + of_nat (snd x)) a (map (\<lambda>n. (n, f n)) (filter (\<lambda>n. 0 < f n) ns))
           = a + (of_nat (sum_list (map f ns)) :: rat)"
  by (induction ns arbitrary: a) (simp_all add: add.assoc)

lemma first_key_interval:
  fixes f :: "nat \<Rightarrow> nat" and T r :: rat
  assumes "0 < T"
  shows "(\<forall>m<n. 0 < f m \<longrightarrow> of_nat (sum f {..m}) / T < r)
           \<longleftrightarrow> (sum f {..<n} = 0 \<or> of_nat (sum f {..<n}) / T < r)"
proof (induction n)
  case 0
  show ?case by simp
next
  case (Suc n)
  show ?case
  proof (cases "0 < f n")
    case True
    have s: "sum f {..<Suc n} = sum f {..n}" by (simp add: lessThan_Suc_atMost)
    have mono: "of_nat (sum f {..m}) / T \<le> of_nat (sum f {..n}) / T" if "m < Suc n" for m
    proof -
      from that have "sum f {..m} \<le> sum f {..n}" by (intro sum_mono2) auto
      then have "(of_nat (sum f {..m}) :: rat) \<le> of_nat (sum f {..n})"
        by (simp only: of_nat_le_iff)
      with assms show ?thesis by (simp add: divide_right_mono)
    qed
    have pos: "sum f {..n} \<noteq> 0"
    proof -
      have "f n \<le> sum f {..n}" by (intro member_le_sum) auto
      with True show ?thesis by linarith
    qed
    show ?thesis
    proof
      assume "\<forall>m<Suc n. 0 < f m \<longrightarrow> of_nat (sum f {..m}) / T < r"
      with True have "of_nat (sum f {..n}) / T < r" by simp
      then show "sum f {..<Suc n} = 0 \<or> of_nat (sum f {..<Suc n}) / T < r" by (simp only: s) simp
    next
      assume "sum f {..<Suc n} = 0 \<or> of_nat (sum f {..<Suc n}) / T < r"
      with pos have lt: "of_nat (sum f {..n}) / T < r" by (simp only: s) simp
      show "\<forall>m<Suc n. 0 < f m \<longrightarrow> of_nat (sum f {..m}) / T < r"
        using mono lt by (meson le_less_trans)
    qed
  next
    case False
    then have s: "sum f {..<Suc n} = sum f {..<n}" by simp
    have "(\<forall>m<Suc n. 0 < f m \<longrightarrow> of_nat (sum f {..m}) / T < r)
        \<longleftrightarrow> (\<forall>m<n. 0 < f m \<longrightarrow> of_nat (sum f {..m}) / T < r)"
      using False by (auto simp: less_Suc_eq)
    with Suc show ?thesis by (simp only: s)
  qed
qed

lemma first_key_unique:
  fixes f :: "nat \<Rightarrow> nat" and T r :: rat
  assumes "0 < f n" "r \<le> of_nat (sum f {..n}) / T"
    "\<forall>m<n. 0 < f m \<longrightarrow> of_nat (sum f {..m}) / T < r"
    and "0 < f k" "r \<le> of_nat (sum f {..k}) / T"
    "\<forall>m<k. 0 < f m \<longrightarrow> of_nat (sum f {..m}) / T < r"
  shows "k = n"
proof (rule ccontr)
  assume "k \<noteq> n"
  then consider "k < n" | "n < k" by linarith
  then show False
  proof cases
    case 1
    with assms(3,4,5) show False by force
  next
    case 2
    with assms(1,2,6) show False by force
  qed
qed

lemma high_draw:
  fixes f :: "nat \<Rightarrow> nat" and r :: rat
  assumes ex: "\<exists>n<37. 0 < f n"
  shows "\<exists>n0 c0 es win.
           map (\<lambda>n. (n, f n)) (filter (\<lambda>n. 0 < f n) [0..<37]) = (n0, c0) # es
         \<and> win = (case pick_high r (of_nat (sum f {..36})) 0 ((n0, c0) # es) of
                    Some n \<Rightarrow> n | None \<Rightarrow> n0)
         \<and> win \<le> 36 \<and> 0 < f win
         \<and> (r \<le> 1 \<longrightarrow>
              (\<forall>m\<le>36. m = win \<longleftrightarrow>
                 0 < f m \<and> (sum f {..<m} = 0 \<or> of_nat (sum f {..<m}) / of_nat (sum f {..36}) < r)
               \<and> r \<le> of_nat (sum f {..m}) / of_nat (sum f {..36})))"
proof -
  let ?T = "of_nat (sum f {..36}) :: rat"
  let ?entries = "map (\<lambda>n. (n, f n)) (filter (\<lambda>n. 0 < f n) [0..<37])"
  from ex obtain a where a: "a < 37" "0 < f a" by blast
  then have "a \<in> set (filter (\<lambda>n. 0 < f n) [0..<37])" by simp
  then have ne: "?entries \<noteq> []" by (auto simp: filter_empty_conv simp del: upt_Suc)
  then obtain n0 c0 es where e: "?entries = (n0, c0) # es" by (cases ?entries) auto
  then have "(n0, c0) \<in> set ?entries" by simp
  then have n0: "n0 < 37" "0 < f n0" by (auto simp del: upt_Suc)
  have Tn: "0 < sum f {..36}"
  proof -
    from a have "f a \<le> sum f {..36}" by (intro member_le_sum) auto
    with a(2) show ?thesis by linarith
  qed
  then have Tpos: "0 < ?T" by (simp only: of_nat_0_less_iff)
  have s37: "sum f {..<37} = sum f {..36}"
    using lessThan_Suc_atMost [of 36] by simp
  have acc0: "(0::rat) = of_nat (sum f {..<0}) / ?T" by simp
  define win where "win = (case pick_high r ?T 0 ((n0, c0) # es) of Some n \<Rightarrow> n | None \<Rightarrow> n0)"
  have none_r: "1 < r" if n: "pick_high r ?T 0 ?entries = None"
  proof -
    from pick_high_None [OF n acc0]
    have "\<forall>m<37. 0 < f m \<longrightarrow> of_nat (sum f {..m}) / ?T < r" by simp
    then have d: "sum f {..<37} = 0 \<or> of_nat (sum f {..<37}) / ?T < r"
      by (simp only: first_key_interval [OF Tpos])
    have "sum f {..<37} \<noteq> 0" using Tn s37 by linarith
    with d have "of_nat (sum f {..<37}) / ?T < r" by blast
    then have "?T / ?T < r" by (simp only: s37)
    moreover from Tpos have "?T / ?T = 1" by (intro divide_self) simp
    ultimately show ?thesis by simp
  qed
  have basic: "win \<le> 36 \<and> 0 < f win"
  proof (cases "pick_high r ?T 0 ?entries")
    case None
    with n0 show ?thesis by (simp add: win_def e [symmetric])
  next
    case (Some n)
    from pick_high_Some [OF Some acc0] Some show ?thesis by (simp add: win_def e [symmetric])
  qed
  have char: "m = win \<longleftrightarrow>
        0 < f m \<and> (sum f {..<m} = 0 \<or> of_nat (sum f {..<m}) / ?T < r) \<and> r \<le> of_nat (sum f {..m}) / ?T"
    if r1: "r \<le> 1" and m: "m \<le> 36" for m
  proof -
    from none_r r1 obtain n where Some: "pick_high r ?T 0 ?entries = Some n"
      by (cases "pick_high r ?T 0 ?entries") auto
    then have w: "win = n" by (simp add: win_def e [symmetric])
    from pick_high_Some [OF Some acc0]
    have F: "0 < f n" "r \<le> of_nat (sum f {..n}) / ?T"
      "\<forall>k<n. 0 < f k \<longrightarrow> of_nat (sum f {..k}) / ?T < r"
      by simp_all
    show ?thesis
    proof
      assume "m = win"
      with w F first_key_interval [OF Tpos, of n f r] show
        "0 < f m \<and> (sum f {..<m} = 0 \<or> of_nat (sum f {..<m}) / ?T < r) \<and> r \<le> of_nat (sum f {..m}) / ?T"
        by simp
    next
      assume c: "0 < f m \<and> (sum f {..<m} = 0 \<or> of_nat (sum f {..<m}) / ?T < r)
                 \<and> r \<le> of_nat (sum f {..m}) / ?T"
      then have "\<forall>k<m. 0 < f k \<longrightarrow> of_nat (sum f {..k}) / ?T < r"
        by (simp only: first_key_interval [OF Tpos])
      with c F have "m = n" by (intro first_key_unique [of f n r ?T m]) simp_all
      with w show "m = win" by simp
    qed
  qed
  from char have "r \<le> 1 \<longrightarrow>
      (\<forall>m\<le>36. m = win \<longleftrightarrow>
         0 < f m \<and> (sum f {..<m} = 0 \<or> of_nat (sum f {..<m}) / ?T < r)
       \<and> r \<le> of_nat (sum f {..m}) / ?T)"
    by simp
  with e basic win_def show ?thesis
    by (intro exI [of _ n0] exI [of _ c0] exI [of _ es] exI [of _ win]) simp
qed

lemma high_winner:
  assumes c: "collect_bettors sels no_bettors = Inr B"
    and ex: "\<exists>p \<in> set sels. is_bettor p \<and> high W p"
  shows "\<exists>n\<le>36. choose_winner W B avg r = Num (of_nat n)
           \<and> 0 < high_cover_count W sels n
           \<and> (r \<le> 1 \<longrightarrow>
                (\<forall>m\<le>36. m = n \<longleftrightarrow>
                   0 < high_cover_count W sels m
                 \<and> (sum (high_cover_count W sels) {..<m} = 0
                    \<or> of_nat (sum (high_cover_count W sels) {..<m})
                        / of_nat (sum (high_cover_count W sels) {..36}) < r)
                 \<and> r \<le> of_nat (sum (high_cover_count W sels) {..m})
                        / of_nat (sum (high_cover_count W sels) {..36})))"
proof -
  let ?f = "high_cover_count W sels"
  from ex obtain p where p: "p \<in> set sels" "is_bettor p" "high W p" by blast
  from p(2) obtain a where a: "a \<le> 36" "covers a p" by (auto simp: is_bettor_def)
  with p(1,3) have "0 < ?f a" by (auto simp: high_cover_count_pos)
  with a(1) have exf: "\<exists>n<37. 0 < ?f n" by (intro exI [of _ a]) simp
  from bettor_sets_flag [OF c p(1,2)] have any: "anyNumeric B \<or> anyColor B" .
  from high_draw [OF exf, of r] obtain n0 c0 es win where
    e: "map (\<lambda>n. (n, ?f n)) (filter (\<lambda>n. 0 < ?f n) [0..<37]) = (n0, c0) # es"
    and w: "win = (case pick_high r (of_nat (sum ?f {..36})) 0 ((n0, c0) # es) of
                    Some n \<Rightarrow> n | None \<Rightarrow> n0)"
    and b: "win \<le> 36 \<and> 0 < ?f win"
    and ch: "r \<le> 1 \<longrightarrow>
              (\<forall>m\<le>36. m = win \<longleftrightarrow>
                 0 < ?f m \<and> (sum ?f {..<m} = 0 \<or> of_nat (sum ?f {..<m}) / of_nat (sum ?f {..36}) < r)
               \<and> r \<le> of_nat (sum ?f {..m}) / of_nat (sum ?f {..36}))"
    by (elim exE conjE) (rule that, assumption+, simp)
  have entries: "hw_entries (highWeightNumbers W B) = (n0, c0) # es"
    by (simp only: hw_entries_filter [OF c] e)
  have "foldl (\<lambda>s x. s + of_nat (snd x)) 0
          (map (\<lambda>n. (n, ?f n)) (filter (\<lambda>n. 0 < ?f n) [0..<37]))
        = (of_nat (sum_list (map ?f [0..<37])) :: rat)"
    by (simp only: total_high_sum add_0_left)
  also have "sum_list (map ?f [0..<37]) = sum ?f {0..<37}"
    by (simp add: interv_sum_list_conv_sum_set_nat del: upt_Suc)
  also have "{0..<37::nat} = {..36}" by auto
  finally have tot: "foldl (\<lambda>s x. s + of_nat (snd x)) 0 ((n0, c0) # es)
      = (of_nat (sum ?f {..36}) :: rat)"
    by (simp only: e)
  have "choose_winner W B avg r
      = (case pick_high r (foldl (\<lambda>s x. s + of_nat (snd x)) 0 ((n0, c0) # es)) 0 ((n0, c0) # es) of
           Some n \<Rightarrow> Num (of_nat n) | None \<Rightarrow> Num (of_nat n0))"
    using any by (simp add: choose_winner_def entries Let_def del: pick_high.simps foldl.simps)
  also have "\<dots> = Num (of_nat win)"
    unfolding tot w by (simp split: option.splits del: pick_high.simps)
  finally have "choose_winner W B avg r = Num (of_nat win)" .
  with b ch show ?thesis by (intro exI [of _ win]) simp
qed



section \<open>The normal weighted rule\<close>

lemma add_pos_sum: "add_pos W s sids = s + sum_list (map (pos_weight W) sids)"
  unfolding add_pos_def
  by (induction sids arbitrary: s) (simp_all add: pos_weight_def Let_def)

lemma pos_weight_nonneg: "0 \<le> pos_weight W sid"
  by (simp add: pos_weight_def)

lemma sum_pos_filter:
  "sum_list (map (\<lambda>p. weight_of W (fst p)) (filter (\<lambda>p. 0 < weight_of W (fst p)) ps))
     = sum_list (map (pos_weight W) (map fst ps))"
  by (induction ps) (simp_all add: pos_weight_def)

lemma sum_pos_zero_iff:
  "sum_list (map (pos_weight W) sids) \<le> 0 \<longleftrightarrow> (\<forall>sid \<in> set sids. weight_of W sid \<le> 0)"
proof -
  have nn: "\<forall>x \<in> set (map (pos_weight W) sids). 0 \<le> x" by (simp add: pos_weight_nonneg)
  have "sum_list (map (pos_weight W) sids) \<le> 0 \<longleftrightarrow> sum_list (map (pos_weight W) sids) = 0"
    using sum_list_nonneg [of "map (pos_weight W) sids"] nn by auto
  also have "\<dots> \<longleftrightarrow> (\<forall>x \<in> set (map (pos_weight W) sids). x = 0)"
    using nn by (intro sum_list_nonneg_eq_0_iff) auto
  also have "\<dots> \<longleftrightarrow> (\<forall>sid \<in> set sids. pos_weight W sid = 0)"
    by simp
  also have "\<dots> \<longleftrightarrow> (\<forall>sid \<in> set sids. weight_of W sid \<le> 0)"
  proof -
    have "pos_weight W sid = 0 \<longleftrightarrow> weight_of W sid \<le> 0" for sid
      by (simp add: pos_weight_def)
    then show ?thesis by simp
  qed
  finally show ?thesis .
qed

lemma sum_filter_disjoint:
  "(\<And>x. \<not> (P x \<and> Q x)) \<Longrightarrow>
   sum_list (map f (filter (\<lambda>x. P x \<or> Q x) xs))
     = sum_list (map f (filter P xs)) + (sum_list (map f (filter Q xs)) :: rat)"
  by (induction xs) auto

lemma number_weight_alt:
  "number_weight W B n =
     (if bettorsByNumber B ! n = [] \<and> colour_sids B n = [] then 1
      else if sum_list (map (pos_weight W) (bettorsByNumber B ! n))
                + sum_list (map (pos_weight W) (colour_sids B n)) \<le> 0 then 0
      else 1 + (sum_list (map (pos_weight W) (bettorsByNumber B ! n))
                + sum_list (map (pos_weight W) (colour_sids B n))))"
  by (simp add: number_weight_def colour_sids_def Let_def add_pos_sum)

lemma number_weight_claimed:
  assumes "collect_bettors sels no_bettors = Inr B" and "n < 37"
  shows "number_weight W B n = claimed_weight W sels n"
proof -
  let ?C = "\<lambda>p. (nat_is_red n \<and> bets_colour ''red'' p) \<or> (nat_is_black n \<and> bets_colour ''black'' p)"
  let ?f = "\<lambda>p. pos_weight W (fst p)"
  note l = collected_lists [OF assms]
  have cov: "covers n = (\<lambda>p. bets_number n p \<or> ?C p)" by (auto simp: covers_def fun_eq_iff)
  have disj: "\<And>p. \<not> (bets_number n p \<and> ?C p)" using number_not_colour by blast
  have s: "sum_list (map ?f (filter (covers n) sels))
      = sum_list (map ?f (filter (bets_number n) sels)) + sum_list (map ?f (filter ?C sels))"
    unfolding cov by (rule sum_filter_disjoint [OF disj])
  have e: "filter (covers n) sels = [] \<longleftrightarrow> filter (bets_number n) sels = [] \<and> filter ?C sels = []"
    unfolding cov by (auto simp: filter_empty_conv)
  have z: "(\<forall>p \<in> set (filter (covers n) sels). weight_of W (fst p) \<le> 0)
      \<longleftrightarrow> sum_list (map ?f (filter (covers n) sels)) \<le> 0"
    using sum_pos_zero_iff [of W "map fst (filter (covers n) sels)"] by (simp add: comp_def)
  show ?thesis
    unfolding number_weight_alt claimed_weight_def Let_def l sum_pos_filter z
    using s e by (simp add: comp_def)
qed

lemma claimed_weight_nonneg: "0 \<le> claimed_weight W sels n"
proof -
  have "0 \<le> sum_list (map (\<lambda>p. weight_of W (fst p))
                (filter (\<lambda>p. 0 < weight_of W (fst p)) (filter (covers n) sels)))"
    unfolding sum_pos_filter by (intro sum_list_nonneg) (auto simp: pos_weight_nonneg)
  then show ?thesis by (simp add: claimed_weight_def Let_def)
qed

lemma weights_claimed:
  assumes "collect_bettors sels no_bettors = Inr B"
  shows "weights W B = map (claimed_weight W sels) [0..<37]"
  unfolding weights_def by (rule map_cong) (simp_all add: number_weight_claimed [OF assms])

lemma no_high_entries:
  assumes "collect_bettors sels no_bettors = Inr B"
    and "\<forall>p \<in> set sels. is_bettor p \<longrightarrow> weight_of W (fst p) < 2"
  shows "hw_entries (highWeightNumbers W B) = []"
proof -
  have "high_cover_count W sels n = 0" if "n < 37" for n
  proof -
    have "\<not> (covers n p \<and> high W p)" if "p \<in> set sels" for p
      using assms(2) that covers_is_bettor [of n p] \<open>n < 37\<close> by (auto simp: high_def)
    then show ?thesis by (simp add: high_cover_count_def filter_empty_conv)
  qed
  then show ?thesis by (simp add: hw_entries_filter [OF assms(1)] filter_empty_conv)
qed

lemma pick_weighted_Some:
  "pick_weighted r tot acc i ws = Some k \<Longrightarrow>
   \<exists>j<length ws. k = i + j \<and> r \<le> acc + sum_list (take (Suc j) ws) / tot
      \<and> (\<forall>l<j. acc + sum_list (take (Suc l) ws) / tot < r)"
proof (induction ws arbitrary: acc i)
  case Nil
  then show ?case by simp
next
  case (Cons w ws)
  show ?case
  proof (cases "r \<le> acc + w / tot")
    case True
    with Cons.prems have "k = i" by simp
    with True show ?thesis by (intro exI [of _ 0]) simp
  next
    case False
    with Cons.prems have "pick_weighted r tot (acc + w / tot) (Suc i) ws = Some k" by simp
    from Cons.IH [OF this] obtain j where j: "j < length ws" "k = Suc i + j"
      "r \<le> acc + w / tot + sum_list (take (Suc j) ws) / tot"
      "\<forall>l<j. acc + w / tot + sum_list (take (Suc l) ws) / tot < r"
      by blast
    have later: "acc + sum_list (take (Suc l) (w # ws)) / tot < r" if "l < Suc j" for l
    proof (cases l)
      case 0
      with False show ?thesis by simp
    next
      case (Suc l')
      with that j(4) show ?thesis by (simp add: add_divide_distrib add.assoc)
    qed
    show ?thesis
      using j(1,2,3) later
      by (intro exI [of _ "Suc j"]) (simp add: add_divide_distrib add.assoc)
  qed
qed

lemma pick_weighted_None:
  "pick_weighted r tot acc i ws = None \<Longrightarrow> l < length ws
     \<Longrightarrow> acc + sum_list (take (Suc l) ws) / tot < r"
proof (induction ws arbitrary: acc i l)
  case Nil
  then show ?case by simp
next
  case (Cons w ws)
  from Cons.prems(1) have nr: "\<not> r \<le> acc + w / tot"
    and rest: "pick_weighted r tot (acc + w / tot) (Suc i) ws = None"
    by (simp_all add: Let_def split: if_splits)
  show ?case
  proof (cases l)
    case 0
    with nr show ?thesis by simp
  next
    case (Suc l')
    with Cons.prems(2) have "l' < length ws" by simp
    from Cons.IH [OF rest this] Suc show ?thesis by (simp add: add_divide_distrib add.assoc)
  qed
qed

lemma foldl_add_sum: "foldl (+) a xs = a + (sum_list xs :: rat)"
  by (induction xs arbitrary: a) (simp_all add: add.assoc)

lemma take_weights_sum:
  "j < n \<Longrightarrow> sum_list (take (Suc j) (map f [0..<n])) = (sum f {..j} :: rat)"
proof -
  assume "j < n"
  then have "take (Suc j) (map f [0..<n]) = map f [0..<Suc j]"
    by (simp only: take_map take_upt) simp
  then show ?thesis
    by (simp add: interv_sum_list_conv_sum_set_nat atLeast0LessThan lessThan_Suc_atMost del: upt_Suc)
qed

lemma cdf_mono:
  fixes f :: "nat \<Rightarrow> rat"
  assumes "\<And>n. 0 \<le> f n" and "k < m"
  shows "sum f {..k} \<le> sum f {..<m}"
  using assms by (intro sum_mono2) auto

lemma cdf_draw_unique:
  fixes f :: "nat \<Rightarrow> rat"
  assumes nn: "\<And>n. 0 \<le> f n" and tot: "0 < tot"
    and i: "r \<le> sum f {..i} / tot" "\<forall>l<i. sum f {..l} / tot < r"
  shows "m = i \<longleftrightarrow> (m = 0 \<or> sum f {..<m} / tot < r) \<and> r \<le> sum f {..m} / tot"
proof
  assume "m = i"
  show "(m = 0 \<or> sum f {..<m} / tot < r) \<and> r \<le> sum f {..m} / tot"
  proof (cases m)
    case 0
    with i(1) \<open>m = i\<close> show ?thesis by simp
  next
    case (Suc k)
    with i(2) \<open>m = i\<close> have "sum f {..k} / tot < r" by simp
    with Suc i(1) \<open>m = i\<close> show ?thesis by (simp add: lessThan_Suc_atMost)
  qed
next
  assume c: "(m = 0 \<or> sum f {..<m} / tot < r) \<and> r \<le> sum f {..m} / tot"
  show "m = i"
  proof (rule ccontr)
    assume "m \<noteq> i"
    then consider "m < i" | "i < m" by linarith
    then show False
    proof cases
      case 1
      with i(2) c show False by force
    next
      case 2
      then have "m \<noteq> 0" by simp
      with c have lt: "sum f {..<m} / tot < r" by simp
      from cdf_mono [OF nn 2] tot have "sum f {..i} / tot \<le> sum f {..<m} / tot"
        by (simp add: divide_right_mono)
      with i(1) lt show False by simp
    qed
  qed
qed

lemma cdf_draw:
  fixes f :: "nat \<Rightarrow> rat"
  assumes nn: "\<And>n. 0 \<le> f n" and tot: "tot = sum f {..36}" "0 < tot" and r: "r \<le> 1"
  shows "\<exists>i\<le>36. pick_weighted r tot 0 0 (map f [0..<37]) = Some i
           \<and> (\<forall>m. m = i \<longleftrightarrow> (m = 0 \<or> sum f {..<m} / tot < r) \<and> r \<le> sum f {..m} / tot)"
proof (cases "pick_weighted r tot 0 0 (map f [0..<37])")
  case None
  from pick_weighted_None [OF None, of 36] have "sum_list (take 37 (map f [0..<37])) / tot < r"
    by simp
  moreover have "sum_list (take 37 (map f [0..<37])) = sum f {..36}"
    using take_weights_sum [of 36 37 f] by simp
  ultimately show ?thesis using tot r by simp
next
  case (Some i)
  from pick_weighted_Some [OF Some] obtain j where j: "j < 37" "i = j"
    "r \<le> sum_list (take (Suc j) (map f [0..<37])) / tot"
    "\<forall>l<j. sum_list (take (Suc l) (map f [0..<37])) / tot < r"
    by auto
  from j(1,2,3) have a: "r \<le> sum f {..i} / tot" by (simp add: take_weights_sum)
  have b: "\<forall>l<i. sum f {..l} / tot < r"
  proof (intro allI impI)
    fix l assume "l < i"
    with j(1,2,4) have "sum_list (take (Suc l) (map f [0..<37])) / tot < r" and "l < 37" by auto
    then show "sum f {..l} / tot < r" by (simp add: take_weights_sum)
  qed
  have u: "m = i \<longleftrightarrow> (m = 0 \<or> sum f {..<m} / tot < r) \<and> r \<le> sum f {..m} / tot" for m
    by (rule cdf_draw_unique [OF nn tot(2) a b])
  from j(1,2) have "i \<le> 36" by simp
  with u Some show ?thesis by (intro exI [of _ i]) simp
qed

lemma normal_winner:
  assumes c: "collect_bettors sels no_bettors = Inr B"
    and ex: "\<exists>p \<in> set sels. is_bettor p"
    and nh: "\<forall>p \<in> set sels. is_bettor p \<longrightarrow> weight_of W (fst p) < 2"
  shows "(sum (claimed_weight W sels) {..36} \<le> 0 \<longrightarrow> choose_winner W B avg r = floor37 avg)
       \<and> (0 < sum (claimed_weight W sels) {..36} \<longrightarrow> r \<le> 1 \<longrightarrow>
            (\<exists>i\<le>36. choose_winner W B avg r = Num (of_nat i)
               \<and> (\<forall>m. m = i \<longleftrightarrow>
                     (m = 0 \<or> sum (claimed_weight W sels) {..<m} / sum (claimed_weight W sels) {..36} < r)
                   \<and> r \<le> sum (claimed_weight W sels) {..m} / sum (claimed_weight W sels) {..36})))"
proof -
  let ?w = "claimed_weight W sels"
  from ex bettor_sets_flag [OF c] have any: "anyNumeric B \<or> anyColor B" by blast
  have nhe: "hw_entries (highWeightNumbers W B) = []" by (rule no_high_entries [OF c nh])
  have ws: "weights W B = map ?w [0..<37]" by (rule weights_claimed [OF c])
  have tot: "foldl (+) 0 (weights W B) = sum ?w {..36}"
  proof -
    have "sum_list (map ?w [0..<37]) = sum ?w {0..<37}"
      by (simp add: interv_sum_list_conv_sum_set_nat del: upt_Suc)
    also have "{0..<37::nat} = {..36}" by auto
    finally show ?thesis by (simp add: foldl_add_sum ws)
  qed
  have win: "choose_winner W B avg r
      = (if sum ?w {..36} \<le> 0 then floor37 avg
         else (case pick_weighted r (sum ?w {..36}) 0 0 (map ?w [0..<37]) of
                 Some i \<Rightarrow> Num (of_nat i) | None \<Rightarrow> floor37 (Num r)))"
    using any nhe by (simp add: choose_winner_def normal_draw_def Let_def tot) (simp add: ws)
  have draw: "\<exists>i\<le>36. choose_winner W B avg r = Num (of_nat i)
       \<and> (\<forall>m. m = i \<longleftrightarrow> (m = 0 \<or> sum ?w {..<m} / sum ?w {..36} < r)
                              \<and> r \<le> sum ?w {..m} / sum ?w {..36})"
    if pos: "0 < sum ?w {..36}" and r1: "r \<le> 1"
  proof -
    from cdf_draw [of ?w "sum ?w {..36}" r, OF claimed_weight_nonneg refl pos r1]
    obtain i where i: "i \<le> 36" "pick_weighted r (sum ?w {..36}) 0 0 (map ?w [0..<37]) = Some i"
      "\<forall>m. m = i \<longleftrightarrow> (m = 0 \<or> sum ?w {..<m} / sum ?w {..36} < r) \<and> r \<le> sum ?w {..m} / sum ?w {..36}"
      by blast
    from pos i(2) have "choose_winner W B avg r = Num (of_nat i)"
      by (simp add: win)
    with i(1,3) show ?thesis by blast
  qed
  have fb: "choose_winner W B avg r = floor37 avg" if "sum ?w {..36} \<le> 0"
    using that by (simp add: win)
  from fb draw show ?thesis by blast
qed



section \<open>Classification of the bets\<close>

text \<open>
  The classification a spin that commits stores for an entry of the ledger, as the code
  computes it from the normalised bet and the winning number. The colours are the two
  functions of the code: \<open>isBlack\<close> holds of every number that is neither 0 nor red,
  on the wheel or off it.
\<close>

lemma spin_classification:
  assumes "dealerSocket st = Some d" and "\<not> spinning st"
    and "spin d clientRandoms r st = Inr st'"
    and "distinct (map fst (selections st))"
    and "map_of (selections st) sid = Some e"
  shows "\<exists>res. lastSpinResult st' = Some res \<and>
           (let w = winningNumber res; b = normalize (sel_bet e); out = map_of (results res) sid
            in (out = Some WIN \<longleftrightarrow> w \<noteq> NaN \<and> b = JNum w) \<and>
               (out = Some COLOR_ONLY \<longleftrightarrow>
                  (b = JStr ''red'' \<and> isRed w) \<or> (b = JStr ''black'' \<and> isBlack w)) \<and>
               (out = Some COLOR \<longleftrightarrow>
                  (\<exists>n. b = JNum n \<and> \<not> num_eq n w \<and>
                       ((isRed n \<and> isRed w) \<or> (isBlack n \<and> isBlack w)))) \<and>
               (out = Some LOSE \<longleftrightarrow> out \<noteq> Some WIN \<and> out \<noteq> Some COLOR_ONLY \<and> out \<noteq> Some COLOR))
         \<and> \<not> isRed (Num 0) \<and> \<not> isBlack (Num 0)
         \<and> {n. n \<le> 36 \<and> nat_is_red n} = {1,3,5,7,9,12,14,16,18,19,21,23,25,27,30,32,34,36}
         \<and> {n. n \<le> 36 \<and> nat_is_black n} = {2,4,6,8,10,11,13,15,17,20,22,24,26,28,29,31,33,35}"
proof -
  from spin_commits [OF assms(1,2,3)] obtain B where
    st': "st' = st\<lparr>spinning := True, betsOpen := False,
                lastSpinResult :=
                  Some \<lparr>winningNumber = choose_winner (weightBySocket st) B (average clientRandoms) r,
                        results = spin_results (choose_winner (weightBySocket st) B (average clientRandoms) r)
                                    (selections st)\<rparr>\<rparr>"
    by blast
  let ?w = "choose_winner (weightBySocket st) B (average clientRandoms) r"
  have o: "map_of (spin_results ?w (selections st)) sid = Some (classify ?w (sel_bet e))"
    by (rule spin_results_lookup [OF assms(4,5)])
  have lose: "classify ?w (sel_bet e) = LOSE \<longleftrightarrow>
      classify ?w (sel_bet e) \<noteq> WIN \<and> classify ?w (sel_bet e) \<noteq> COLOR_ONLY \<and> classify ?w (sel_bet e) \<noteq> COLOR"
    by (cases "classify ?w (sel_bet e)") simp_all
  show ?thesis
    using classify_cases [of ?w "sel_bet e"] lose
    by (simp add: st' o Let_def not_red_zero isBlack_def red_set black_set)
qed

text \<open>
  Claim C3 at an input where the code departs from it. The ledger holds the numbers 40
  and -1, which \<open>select\<close> records like any value and which are not numbers of the
  wheel; nobody is a bettor, so the winning number is \<open>floor(avg * 37)\<close>, here the black
  number 2. The claim gives colours to the 36 numbers from 1 to 36 and says LOSE in
  every other case; the code stores COLOR for both connections, because
  \<open>isBlack(40)\<close> and \<open>isBlack(-1)\<close> are true. The loop that collects the bettors does
  test \<open>bet >= 0 && bet <= 36\<close>; the loop that classifies does not.
\<close>

theorem off_wheel_bet_classified_black:
  "spin ''D'' [1/16] 0
     (ex_table [(''A'', on_number ''Ann'' 40), (''B'', on_number ''Bob'' (- 1))] Map.empty)
     = Inr (after_spin
              (ex_table [(''A'', on_number ''Ann'' 40), (''B'', on_number ''Bob'' (- 1))] Map.empty)
              (Num 2) [(''A'', COLOR), (''B'', COLOR)])
   \<and> \<not> in_table_range (JNum (Num 40)) \<and> \<not> in_table_range (JNum (Num (- 1)))
   \<and> isBlack (Num 40) \<and> isBlack (Num (- 1)) \<and> isBlack (Num 2)"
proof -
  have c: "collect_bettors [(''A'', on_number ''Ann'' 40), (''B'', on_number ''Bob'' (- 1))] no_bettors
     = Inr no_bettors"
    by (simp add: add_bettor_def normalize_num on_number_def)
  have f: "\<lfloor>37 / 16 :: rat\<rfloor> = 2" by (simp add: floor_eq_iff)
  have w: "choose_winner Map.empty no_bettors (average [1/16]) 0 = Num 2"
    by (simp add: no_bets_winner average_def floor37_def f)
  have b: "isBlack (Num 40)" "isBlack (Num (- 1))" "isBlack (Num 2)"
    by (simp_all add: isBlack_def isRed_def red_numbers_def)
  have r: "spin_results (Num 2) [(''A'', on_number ''Ann'' 40), (''B'', on_number ''Bob'' (- 1))]
      = [(''A'', COLOR), (''B'', COLOR)]"
    by (simp add: spin_results_def classify_def normalize_num num_eq_def on_number_def Let_def b)
  have "spin ''D'' [1/16] 0
     (ex_table [(''A'', on_number ''Ann'' 40), (''B'', on_number ''Bob'' (- 1))] Map.empty)
     = Inr (after_spin
              (ex_table [(''A'', on_number ''Ann'' 40), (''B'', on_number ''Bob'' (- 1))] Map.empty)
              (Num 2) [(''A'', COLOR), (''B'', COLOR)])"
    by (simp add: spin_def ex_table_def init_state_def after_spin_def c w r
             del: collect_bettors.simps)
  with b show ?thesis by simp
qed

section \<open>Submitting a bet\<close>

text \<open>
  Claim C4, as the code has it. When the window is open and the caller is not the dealer,
  the submitted value is recorded for the caller as it is, whatever its shape; in every
  other case the call changes nothing. Shapes are interpreted at the spin only.
  Submitting null stores null as the caller's bet: the leaderboard shows it as no bet
  and the draw passes over it.
\<close>

theorem select_records_any_value:
  "(betsOpen st \<and> dealerSocket st \<noteq> Some sid \<longrightarrow>
      map_of (selections (select sid b st))
        = (map_of (selections st))(sid \<mapsto> \<lparr>sel_name = data_name (socket_data st sid), sel_bet = b\<rparr>)
      \<and> select sid b st = st\<lparr>selections := selections (select sid b st)\<rparr>)
   \<and> (\<not> (betsOpen st \<and> dealerSocket st \<noteq> Some sid) \<longrightarrow> select sid b st = st)
   \<and> (betsOpen st \<and> dealerSocket st \<noteq> Some sid \<longrightarrow>
        row_bet (live_row (select sid JNull st) nm sid) = JNull
        \<and> add_bettor B (sid, \<lparr>sel_name = data_name (socket_data st sid), sel_bet = JNull\<rparr>) = Inr B)"
  by (auto simp: select_def update_conv' live_row_def add_bettor_def normalize_def)

theorem select_records_any_value_witness:
  "betsOpen ex_seated \<and> dealerSocket ex_seated \<noteq> Some ''A''
   \<and> map_of (selections (select ''A'' (JNum (Num 17)) ex_seated)) ''A'' = Some (on_number ''Ann'' 17)
   \<and> \<not> (betsOpen ex_seated \<and> dealerSocket ex_seated \<noteq> Some ''D'')
   \<and> select ''D'' (JNum (Num 17)) ex_seated = ex_seated
   \<and> row_bet (live_row (select ''A'' JNull ex_seated) (Some ''Ann'') ''A'') = JNull"
proof -
  note t1 = select_records_any_value [where st = ex_seated and sid = "''A''" and b = "JNum (Num 17)"
              and nm = "Some ''Ann''" and B = no_bettors]
  note t2 = select_records_any_value [where st = ex_seated and sid = "''D''" and b = "JNum (Num 17)"
              and nm = "Some ''Ann''" and B = no_bettors]
  have h: "betsOpen ex_seated" "dealerSocket ex_seated \<noteq> Some ''A''" "dealerSocket ex_seated = Some ''D''"
    by (simp_all add: ex_seated_fields)
  from t1 h have a: "map_of (selections (select ''A'' (JNum (Num 17)) ex_seated)) ''A''
      = Some (on_number ''Ann'' 17)"
    by (simp add: ex_seated_fields on_number_def)
  from t1 h have c: "row_bet (live_row (select ''A'' JNull ex_seated) (Some ''Ann'') ''A'') = JNull"
    by blast
  from t2 h have b: "select ''D'' (JNum (Num 17)) ex_seated = ex_seated" by blast
  show ?thesis using h a b c by simp
qed

text \<open>
  Claim C4, as stated, fails: a value that is neither a number from 0 to 36 nor a colour
  is recorded like any other.
\<close>

theorem select_rejects_nothing_counterexample:
  "betsOpen ex_seated \<and> dealerSocket ex_seated = Some ''D''
   \<and> string_to_number ''purple'' = NaN
   \<and> normalize (JStr ''purple'') = JStr ''purple''
   \<and> selections ex_seated = []
   \<and> selections (select ''A'' (JStr ''purple'') ex_seated) = [(''A'', on_string ''Ann'' ''purple'')]"
  by (simp add: ex_seated_fields handler_fields on_string_def normalize_def string_to_number_def
        trim_def is_ws_def parse_prefixed_def parse_unsigned_def parse_unsigned_decimal_def
        span_digits_def is_digit_in_def digit_of_def toLowerCase_def lower_char_def)

section \<open>The dealer slot\<close>

text \<open>
  Claim C5. The dealer slot is one variable, so at most one connection holds it. While
  it is held, no sequence of \<open>join\<close> and \<open>dealerLogin\<close> events changes the holder:
  \<open>dealerLogin\<close> changes nothing at all, and \<open>join\<close> records the session but
  leaves the slot as it is. A step gives the slot to a connection only when the slot was
  empty and the event is a \<open>join\<close> or \<open>dealerLogin\<close> of that connection with the
  dealer code of the registry.
\<close>

theorem single_dealer_first_claim_wins:
  "(run reg es (init_state reg) = Inr st \<longrightarrow> card {sid. dealerSocket st = Some sid} \<le> 1)
   \<and> (run reg es s = Inr s' \<longrightarrow> list_all claim_event es \<longrightarrow> dealerSocket s = Some d
         \<longrightarrow> dealerSocket s' = Some d)
   \<and> (dealerSocket s \<noteq> None \<longrightarrow> dealerLogin reg sid c s = s)
   \<and> (dealerSocket s \<noteq> None \<longrightarrow> dealerSocket (join reg sid c s) = dealerSocket s)
   \<and> (step reg e s = Inr s'' \<longrightarrow> dealerSocket s'' = Some d \<longrightarrow> dealerSocket s \<noteq> Some d
         \<longrightarrow> dealerSocket s = None
             \<and> (\<exists>c. DEALER_CODE reg = Some c \<and> (e = Join d c \<or> e = DealerLogin d c)))"
proof (intro conjI impI)
  have "{sid. dealerSocket st = Some sid} \<subseteq> (case dealerSocket st of None \<Rightarrow> {} | Some x \<Rightarrow> {x})"
    by (auto split: option.splits)
  then have "card {sid. dealerSocket st = Some sid}
      \<le> card (case dealerSocket st of None \<Rightarrow> {} | Some x \<Rightarrow> {x})"
    by (intro card_mono) (auto split: option.splits)
  also have "\<dots> \<le> 1" by (simp split: option.splits)
  finally show "card {sid. dealerSocket st = Some sid} \<le> 1" .
next
  assume "run reg es s = Inr s'" "list_all claim_event es" "dealerSocket s = Some d"
  then show "dealerSocket s' = Some d" by (rule run_claims_keep_dealer)
next
  assume "dealerSocket s \<noteq> None"
  then show "dealerLogin reg sid c s = s" by (simp add: dealerLogin_def)
next
  assume "dealerSocket s \<noteq> None"
  then show "dealerSocket (join reg sid c s) = dealerSocket s" by (simp add: join_dealer)
next
  assume a: "step reg e s = Inr s''" "dealerSocket s'' = Some d" "dealerSocket s \<noteq> Some d"
  from step_dealer_cases [OF a(1)] a(2,3) show "dealerSocket s = None"
    by auto
next
  assume a: "step reg e s = Inr s''" "dealerSocket s'' = Some d" "dealerSocket s \<noteq> Some d"
  from step_dealer_cases [OF a(1)] a(2,3)
  show "\<exists>c. DEALER_CODE reg = Some c \<and> (e = Join d c \<or> e = DealerLogin d c)"
    by (auto simp: is_dealer_code_def split: option.splits)
qed

theorem single_dealer_first_claim_wins_witness:
  "run ex_registry [Join ''D'' ''100001''] (init_state ex_registry) = Inr ex_joined
   \<and> card {sid. dealerSocket ex_joined = Some sid} \<le> 1
   \<and> run ex_registry [DealerLogin ''A'' ''100001'', Join ''B'' ''100001''] ex_joined
        = Inr (join ex_registry ''B'' ''100001'' ex_joined)
   \<and> list_all claim_event [DealerLogin ''A'' ''100001'', Join ''B'' ''100001'']
   \<and> dealerSocket ex_joined = Some ''D''
   \<and> dealerSocket (join ex_registry ''B'' ''100001'' ex_joined) = Some ''D''
   \<and> dealerLogin ex_registry ''A'' ''100001'' ex_joined = ex_joined
   \<and> step ex_registry (Join ''D'' ''100001'') (init_state ex_registry) = Inr ex_joined
   \<and> dealerSocket (init_state ex_registry) = None
   \<and> (\<exists>c. DEALER_CODE ex_registry = Some c
          \<and> (Join ''D'' ''100001'' = Join ''D'' c \<or> Join ''D'' ''100001'' = DealerLogin ''D'' c))"
proof -
  have r1: "run ex_registry [Join ''D'' ''100001''] (init_state ex_registry) = Inr ex_joined"
    by (simp add: ex_joined_def)
  have l: "dealerLogin ex_registry ''A'' ''100001'' ex_joined = ex_joined"
    by (simp add: dealerLogin_def ex_joined_fields)
  have r2: "run ex_registry [DealerLogin ''A'' ''100001'', Join ''B'' ''100001''] ex_joined
        = Inr (join ex_registry ''B'' ''100001'' ex_joined)"
    by (simp add: l)
  have c: "list_all claim_event [DealerLogin ''A'' ''100001'', Join ''B'' ''100001'']"
    by (simp add: claim_event_def)
  have s: "step ex_registry (Join ''D'' ''100001'') (init_state ex_registry) = Inr ex_joined"
    by (simp add: ex_joined_def)
  have i: "dealerSocket (init_state ex_registry) = None" by (simp add: init_state_def)
  note t1 = single_dealer_first_claim_wins [where reg = ex_registry
         and es = "[DealerLogin ''A'' ''100001'', Join ''B'' ''100001'']"
         and st = "join ex_registry ''B'' ''100001'' ex_joined" and s = ex_joined
         and s' = "join ex_registry ''B'' ''100001'' ex_joined" and d = "''D''"
         and sid = "''A''" and c = "''100001''"
         and e = "Join ''D'' ''100001''" and s'' = ex_joined]
  note t2 = single_dealer_first_claim_wins [where reg = ex_registry and es = "[Join ''D'' ''100001'']"
         and st = ex_joined and s = "init_state ex_registry" and s' = ex_joined and d = "''D''"
         and sid = "''A''" and c = "''100001''"
         and e = "Join ''D'' ''100001''" and s'' = ex_joined]
  from t2 r1 have a: "card {sid. dealerSocket ex_joined = Some sid} \<le> 1" by blast
  from t1 r2 c ex_joined_fields(1)
  have b: "dealerSocket (join ex_registry ''B'' ''100001'' ex_joined) = Some ''D''" by blast
  from t2 s i ex_joined_fields(1)
  have e: "\<exists>c. DEALER_CODE ex_registry = Some c
          \<and> (Join ''D'' ''100001'' = Join ''D'' c \<or> Join ''D'' ''100001'' = DealerLogin ''D'' c)"
    by (metis option.distinct(1))
  show ?thesis using r1 r2 l c s i a b e ex_joined_fields(1) by blast
qed

section \<open>The bet of the dealer\<close>

text \<open>
  What guards the dealer: \<open>select\<close> ignores the dealer, so from the moment a
  connection holds the slot until it disconnects no operation changes its entry in the
  ledger.
\<close>

lemma dealer_entry_unchanged:
  "run reg es s = Inr s' \<Longrightarrow> dealerSocket s = Some d \<Longrightarrow> Disconnect d \<notin> set es
     \<Longrightarrow> dealerSocket s' = Some d \<and> map_of (selections s') d = map_of (selections s) d"
proof (induction es arbitrary: s)
  case Nil
  then show ?case by simp
next
  case (Cons e es)
  from Cons.prems(1) obtain s1 where e: "step reg e s = Inr s1" and r: "run reg es s1 = Inr s'"
    by (auto split: sum.splits)
  from Cons.prems(3) have ne: "e \<noteq> Disconnect d" and rest: "Disconnect d \<notin> set es" by auto
  from step_dealer_entry [OF e Cons.prems(2) ne]
  have d1: "dealerSocket s1 = Some d" and m1: "map_of (selections s1) d = map_of (selections s) d"
    by simp_all
  from Cons.IH [OF r d1 rest] m1 show ?case by simp
qed

text \<open>
  Claim C6 at an input where the code departs from it. Ann joins as connection \<open>A\<close>
  and bets 5; the dealer disconnects; \<open>A\<close> logs in with the dealer code. Neither path
  that grants the slot (in \<open>join\<close> and in \<open>dealerLogin\<close>) looks at the ledger, so
  \<open>A\<close> is now the dealer and still holds the bet on 5, although \<open>select\<close> exists
  to keep the dealer from betting. As the dealer she gives herself weight 3 and spins:
  the priority rule draws from her number alone, and she wins.
\<close>

theorem dealer_slot_granted_over_bet:
  "run ex_registry
     [Join ''D'' ''100001'', OpenBets ''D'', Join ''A'' ''100002'', Select ''A'' (JNum (Num 5)),
      Disconnect ''D'', DealerLogin ''A'' ''100001'']
     (init_state ex_registry) = Inr ex_dealer_with_bet
   \<and> dealerSocket ex_dealer_with_bet = Some ''A''
   \<and> map_of (selections ex_dealer_with_bet) ''A'' = Some (on_number ''Ann'' 5)
   \<and> run ex_registry [SetWeight ''A'' ''A'' (Num 3), Spin ''A'' [1/2] (1/2)] ex_dealer_with_bet
       = Inr (after_spin (setWeight ''A'' ''A'' (Num 3) ex_dealer_with_bet) (Num 5) [(''A'', WIN)])"
proof -
  have r: "run ex_registry
     [Join ''D'' ''100001'', OpenBets ''D'', Join ''A'' ''100002'', Select ''A'' (JNum (Num 5)),
      Disconnect ''D'', DealerLogin ''A'' ''100001'']
     (init_state ex_registry) = Inr ex_dealer_with_bet"
    by (simp add: ex_dealer_with_bet_def ex_seated_def ex_open_def ex_joined_def)
  have d: "dealerSocket ex_dealer_with_bet = Some ''A''"
    by (simp add: ex_dealer_with_bet_def handler_fields ex_seated_fields ex_code)
  have sels: "selections ex_dealer_with_bet = [(''A'', on_number ''Ann'' 5)]"
    by (simp add: ex_dealer_with_bet_def handler_fields ex_seated_fields on_number_def)
  have conn: "map_of (connectedSockets ex_dealer_with_bet) ''A''
      = Some \<lparr>conn_name = ''Ann'', conn_code = Some ''100002''\<rparr>"
    by (simp add: ex_dealer_with_bet_def dealerLogin_def disconnect_def select_def ex_seated_def
          join_def join_track_def join_identify_def Let_def ex_code ex_code2 truthy_def
          ex_open_def openBets_def ex_joined_def init_state_def delete_conv' update_conv'
          split: option.splits)
  have idle: "\<not> spinning ex_dealer_with_bet" "weightBySocket ex_dealer_with_bet = Map.empty"
    by (simp_all add: ex_dealer_with_bet_def dealerLogin_def disconnect_def select_def ex_seated_def
          join_def join_track_def join_identify_def Let_def ex_code ex_code2 truthy_def
          ex_open_def openBets_def ex_joined_def init_state_def split: option.splits)
  let ?st = "setWeight ''A'' ''A'' (Num 3) ex_dealer_with_bet"
  have st: "dealerSocket ?st = Some ''A''" "\<not> spinning ?st"
    "selections ?st = [(''A'', on_number ''Ann'' 5)]" "weightBySocket ?st = [''A'' \<mapsto> 3]"
    by (simp_all add: setWeight_def d conn idle sels clamp_weight_def)
  have c: "collect_bettors [(''A'', on_number ''Ann'' 5)] no_bettors
     = Inr (no_bettors\<lparr>anyNumeric := True, bettorsByNumber := (replicate 37 [])[5 := [''A'']]\<rparr>)"
    by (simp add: add_bettor_def normalize_num no_bettors_def on_number_def)
  have w: "choose_winner [''A'' \<mapsto> 3]
       (no_bettors\<lparr>anyNumeric := True, bettorsByNumber := (replicate 37 [])[5 := [''A'']]\<rparr>)
       (average [1/2]) (1/2) = Num 5"
    by (simp add: draw_defs)
  have res: "spin_results (Num 5) [(''A'', on_number ''Ann'' 5)] = [(''A'', WIN)]"
    by (simp add: spin_results_def classify_def normalize_num num_eq_def on_number_def Let_def)
  have "spin ''A'' [1/2] (1/2) ?st = Inr (after_spin ?st (Num 5) [(''A'', WIN)])"
    by (simp add: spin_def st after_spin_def c w res del: collect_bettors.simps)
  then have r2: "run ex_registry [SetWeight ''A'' ''A'' (Num 3), Spin ''A'' [1/2] (1/2)] ex_dealer_with_bet
       = Inr (after_spin ?st (Num 5) [(''A'', WIN)])"
    by simp
  from r d sels r2 show ?thesis by simp
qed

section \<open>The rows of the leaderboard\<close>

lemma update_append: "k \<notin> fst ` set al \<Longrightarrow> AList.update k v al = al @ [(k, v)]"
  by (induction al) auto

lemma foldl_update_append:
  "distinct (map k xs) \<Longrightarrow> \<forall>x \<in> set xs. k x \<notin> fst ` set acc \<Longrightarrow>
   foldl (\<lambda>ordered x. AList.update (k x) (v x) ordered) acc xs = acc @ map (\<lambda>x. (k x, v x)) xs"
proof (induction xs arbitrary: acc)
  case Nil
  show ?case by simp
next
  case (Cons x xs)
  from Cons.prems have kx: "k x \<notin> fst ` set acc" and d: "distinct (map k xs)"
    and nx: "k x \<notin> k ` set xs" by auto
  have "\<forall>y \<in> set xs. k y \<notin> fst ` set (acc @ [(k x, v x)])"
  proof (intro ballI)
    fix y assume y: "y \<in> set xs"
    from nx y have "k y \<noteq> k x" by (metis imageI)
    moreover from Cons.prems(2) y have "k y \<notin> fst ` set acc" by simp
    ultimately show "k y \<notin> fst ` set (acc @ [(k x, v x)])" by auto
  qed
  from Cons.IH [OF d this] show ?case by (simp add: update_append [OF kx])
qed

lemma registered_rows_fold:
  "registered_rows reg st
     = foldl (\<lambda>ordered c. AList.update (registered_key st c) (registered_row reg st c) ordered)
         [] (usersOrder reg)"
proof -
  have "(\<lambda>ordered c.
              let s = (case usersStatus st c of
                         None \<Rightarrow> \<lparr>connected = False, socketId = None\<rparr>
                       | Some s \<Rightarrow> s)
              in case (if connected s then truthy (socketId s) else None) of
                   Some sid \<Rightarrow>
                     if map_of (connectedSockets st) sid \<noteq> None
                     then AList.update sid (live_row st (usersByCode reg c) sid) ordered
                     else AList.update (''u:'' @ c)
                            \<lparr>row_name = usersByCode reg c, row_bet = JNull,
                             row_connected = False, row_weight = None\<rparr> ordered
                 | None \<Rightarrow>
                     AList.update (''u:'' @ c)
                       \<lparr>row_name = usersByCode reg c, row_bet = JNull,
                        row_connected = False, row_weight = None\<rparr> ordered)
      = (\<lambda>ordered c. AList.update (registered_key st c) (registered_row reg st c) ordered)"
    by (intro ext)
       (auto simp: registered_key_def registered_row_def active_sid_def Let_def split: option.splits)
  then show ?thesis by (simp add: registered_rows_def)
qed

lemma remaining_guests:
  "remaining st = sort_key (\<lambda>p. toLowerCase (conn_name (snd p))) (guests st)"
proof -
  have eq: "(\<lambda>p. \<not> (case truthy (conn_code (snd p)) of None \<Rightarrow> False | Some c \<Rightarrow> usersStatus st c \<noteq> None))
      = (\<lambda>p. case truthy (conn_code (snd p)) of None \<Rightarrow> True | Some c \<Rightarrow> usersStatus st c = None)"
    by (intro ext) (simp split: option.splits)
  show ?thesis unfolding remaining_def guests_def eq ..
qed

text \<open>
  The layout of the leaderboard in a state where the rows do not collide: no two
  registered users are shown under one key, and no guest has the key of a registered row.
  Then every registered user has exactly one row, in registry order, keyed by the active
  connection with the live bet and weight, or by the pseudo-key with no bet and no weight;
  the guests follow, sorted by their lower-cased names, earlier connections first among
  equal names.
\<close>

lemma leaderboard_layout:
  assumes "distinct (map (registered_key st) (usersOrder reg))"
    and "distinct (map fst (connectedSockets st))"
    and "\<forall>p \<in> set (guests st). fst p \<notin> registered_key st ` set (usersOrder reg)"
  shows "emitLeaderboard reg st
     = map (\<lambda>c. (registered_key st c, registered_row reg st c)) (usersOrder reg)
       @ map (guest_row st) (sort_key (\<lambda>p. toLowerCase (conn_name (snd p))) (guests st))"
proof -
  let ?reg = "map (\<lambda>c. (registered_key st c, registered_row reg st c)) (usersOrder reg)"
  let ?gs = "sort_key (\<lambda>p. toLowerCase (conn_name (snd p))) (guests st)"
  have rr: "registered_rows reg st = ?reg"
    unfolding registered_rows_fold
    using foldl_update_append [of "registered_key st" "usersOrder reg" "[]" "registered_row reg st"]
      assms(1)
    by simp
  from assms(2) have "distinct (map fst (guests st))"
    unfolding guests_def by (rule distinct_map_filter)
  then have dg: "distinct (map fst ?gs)"
    by (simp add: distinct_map)
  have disj: "\<forall>p \<in> set ?gs. fst p \<notin> fst ` set ?reg"
    using assms(3) by (auto simp: image_image)
  have "emitLeaderboard reg st
      = foldl (\<lambda>ordered p. AList.update (fst p) (snd (guest_row st p)) ordered) ?reg ?gs"
    by (simp add: emitLeaderboard_def rr remaining_guests guest_row_def)
  also have "\<dots> = ?reg @ map (\<lambda>p. (fst p, snd (guest_row st p))) ?gs"
    by (rule foldl_update_append [OF dg disj])
  also have "map (\<lambda>p. (fst p, snd (guest_row st p))) ?gs = map (guest_row st) ?gs"
    by (simp add: guest_row_def)
  finally show ?thesis .
qed

lemma ex_seated_board:
  "emitLeaderboard ex_registry ex_seated
     = [(''D'', \<lparr>row_name = Some ''Dealer'', row_bet = JNull, row_connected = True,
                 row_weight = Some 1\<rparr>),
        (''A'', \<lparr>row_name = Some ''Ann'', row_bet = JNull, row_connected = True,
                 row_weight = Some 1\<rparr>),
        (''u:100003'', \<lparr>row_name = Some ''Bob'', row_bet = JNull, row_connected = False,
                         row_weight = None\<rparr>)]"
proof -
  have f: "connectedSockets ex_seated
        = [(''D'', \<lparr>conn_name = ''Dealer'', conn_code = Some ''100001''\<rparr>),
           (''A'', \<lparr>conn_name = ''Ann'', conn_code = Some ''100002''\<rparr>)]"
    "usersStatus ex_seated ''100001'' = Some \<lparr>connected = True, socketId = Some ''D''\<rparr>"
    "usersStatus ex_seated ''100002'' = Some \<lparr>connected = True, socketId = Some ''A''\<rparr>"
    "usersStatus ex_seated ''100003'' = Some \<lparr>connected = False, socketId = None\<rparr>"
    "weightBySocket ex_seated = Map.empty"
    by (simp_all add: ex_seated_def ex_open_def ex_joined_def openBets_def join_def join_track_def
          join_identify_def Let_def ex_code ex_code2 truthy_def init_state_def init_status_def
          ex_registry_def is_dealer_code_def)
  have "registered_rows ex_registry ex_seated
     = [(''D'', \<lparr>row_name = Some ''Dealer'', row_bet = JNull, row_connected = True,
                 row_weight = Some 1\<rparr>),
        (''A'', \<lparr>row_name = Some ''Ann'', row_bet = JNull, row_connected = True,
                 row_weight = Some 1\<rparr>),
        (''u:100003'', \<lparr>row_name = Some ''Bob'', row_bet = JNull, row_connected = False,
                         row_weight = None\<rparr>)]"
    by (simp add: registered_rows_def f ex_seated_fields live_row_def weight_of_def truthy_def
          ex_registry_def)
  moreover have "remaining ex_seated = []"
    by (simp add: remaining_def f truthy_def)
  ultimately show ?thesis by (simp add: emitLeaderboard_def)
qed

text \<open>
  Claim C7 at the input where the code leaves a registered user out: one connection
  joins with the code of Ann and then with the code of Bob. Both users stay marked as
  connected under that connection id, the second row overwrites the first, and the
  leaderboard of the three registered users has two rows, none of them for Ann.
\<close>

theorem rejoin_drops_registered_row:
  "run ex_registry [Join ''A'' ''100002'', Join ''A'' ''100003''] (init_state ex_registry)
     = Inr ex_rejoined
   \<and> usersOrder ex_registry = [''100001'', ''100002'', ''100003'']
   \<and> emitLeaderboard ex_registry ex_rejoined
       = [(''u:100001'', \<lparr>row_name = Some ''Dealer'', row_bet = JNull, row_connected = False,
                           row_weight = None\<rparr>),
          (''A'', \<lparr>row_name = Some ''Bob'', row_bet = JNull, row_connected = True,
                   row_weight = Some 1\<rparr>)]"
proof -
  have "registered_rows ex_registry ex_rejoined
       = [(''u:100001'', \<lparr>row_name = Some ''Dealer'', row_bet = JNull, row_connected = False,
                           row_weight = None\<rparr>),
          (''A'', \<lparr>row_name = Some ''Bob'', row_bet = JNull, row_connected = True,
                   row_weight = Some 1\<rparr>)]"
    by (simp add: registered_rows_def ex_rejoined_fields live_row_def weight_of_def truthy_def
          ex_registry_def)
  moreover have "remaining ex_rejoined = []"
    by (simp add: remaining_def ex_rejoined_fields truthy_def)
  ultimately show ?thesis
    by (simp add: emitLeaderboard_def ex_rejoined_def) (simp add: ex_registry_def)
qed

section \<open>The fallback draw\<close>

lemma floor37_on_wheel:
  assumes "0 \<le> q" and "q < 1"
  shows "\<exists>n\<le>36. floor37 (Num q) = Num (of_nat n)"
proof -
  from assms have lo: "0 \<le> \<lfloor>q * 37\<rfloor>" by simp
  from assms have "q * 37 < 37" by simp
  then have hi: "\<lfloor>q * 37\<rfloor> < 37" by (simp add: floor_less_iff)
  have "(of_int \<lfloor>q * 37\<rfloor> :: rat) = of_nat (nat \<lfloor>q * 37\<rfloor>)" using lo by simp
  moreover have "nat \<lfloor>q * 37\<rfloor> \<le> 36" using hi by linarith
  ultimately show ?thesis by (auto simp: floor37_def)
qed

lemma flags_give_bettor:
  assumes c: "collect_bettors sels no_bettors = Inr B" and any: "anyNumeric B \<or> anyColor B"
  shows "\<exists>p \<in> set sels. is_bettor p"
proof -
  have len: "length (bettorsByNumber no_bettors) = 37" by (simp add: no_bettors_def)
  note cr = collect_bettors_result [OF c len]
  from any cr consider p where "p \<in> set sels" "in_table_range (normalize (sel_bet (snd p)))"
    | p where "p \<in> set sels" "bets_colour ''red'' p \<or> bets_colour ''black'' p"
    by (auto simp: no_bettors_def)
  then show ?thesis
  proof cases
    case 1
    from collect_bettors_fails [of sels no_bettors] c 1(1) have "\<not> fractional_bet p" by auto
    with 1(2) obtain m where m: "table_index (normalize (sel_bet (snd p))) = Some m"
      by (auto simp: fractional_bet_def)
    from table_index_Some [OF 1(2) m] have "bets_number m p" "m \<le> 36"
      by (simp_all add: bets_number_def)
    then have "is_bettor p" by (intro covers_is_bettor [of m]) (simp_all add: covers_def)
    with 1(1) show ?thesis by blast
  next
    case 2
    have "nat_is_red 1" "nat_is_black 2" by (simp_all add: nat_is_black_iff nat_is_red_iff)
    with 2(2) have "covers 1 p \<or> covers 2 p" by (auto simp: covers_def)
    then have "is_bettor p" by (auto intro: covers_is_bettor [of 1] covers_is_bettor [of 2])
    with 2(1) show ?thesis by blast
  qed
qed

text \<open>
  Where the draw stays on the wheel: a spin that commits with a non-empty sequence of
  client randoms whose average lies in \<open>[0, 1)\<close>, and a random value of at most 1,
  stores a winning number from 0 to 36.
\<close>

lemma spin_winner_on_wheel:
  assumes "dealerSocket st = Some d" and "\<not> spinning st"
    and "spin d clientRandoms r st = Inr st'"
    and avg: "average clientRandoms = Num q" "0 \<le> q" "q < 1" and r: "r \<le> 1"
  shows "\<exists>res n. lastSpinResult st' = Some res \<and> winningNumber res = Num (of_nat n) \<and> n \<le> 36"
proof -
  let ?W = "weightBySocket st" and ?sels = "selections st"
  from spin_commits [OF assms(1,2,3)] obtain B where
    c: "collect_bettors ?sels no_bettors = Inr B" and
    st': "st' = st\<lparr>spinning := True, betsOpen := False,
                lastSpinResult :=
                  Some \<lparr>winningNumber = choose_winner ?W B (average clientRandoms) r,
                        results = spin_results (choose_winner ?W B (average clientRandoms) r) ?sels\<rparr>\<rparr>"
    by blast
  from floor37_on_wheel [OF avg(2,3)] obtain k where k: "k \<le> 36" "floor37 (Num q) = Num (of_nat k)"
    by blast
  have "\<exists>n\<le>36. choose_winner ?W B (Num q) r = Num (of_nat n)"
  proof (cases "anyNumeric B \<or> anyColor B")
    case False
    then have "choose_winner ?W B (Num q) r = floor37 (Num q)" by (simp add: choose_winner_def)
    with k show ?thesis by auto
  next
    case True
    from flags_give_bettor [OF c True] have ex: "\<exists>p \<in> set ?sels. is_bettor p" .
    show ?thesis
    proof (cases "\<exists>p \<in> set ?sels. is_bettor p \<and> high ?W p")
      case True
      from high_winner [OF c True, of "Num q" r] show ?thesis by blast
    next
      case False
      then have nh: "\<forall>p \<in> set ?sels. is_bettor p \<longrightarrow> weight_of ?W (fst p) < 2"
        by (auto simp: high_def not_le)
      note nw = normal_winner [OF c ex nh, of "Num q" r]
      show ?thesis
      proof (cases "sum (claimed_weight ?W ?sels) {..36} \<le> 0")
        case True
        with nw k show ?thesis by auto
      next
        case False
        with nw r show ?thesis by (simp add: not_le) blast
      qed
    qed
  qed
  then show ?thesis by (auto simp: st' avg(1))
qed

text \<open>
  Claim C8 at the inputs where the code leaves the table: with no bets in the ledger the
  winning number is \<open>floor(avg * 37)\<close> of whatever the dealer's client sent. An empty
  sequence gives \<open>0 / 0\<close>, and the stored winning number is \<open>NaN\<close>; the sequence \<open>[1]\<close>
  gives 37; the sequence \<open>[-1]\<close> gives -37.
\<close>

theorem spin_stores_number_off_the_wheel:
  "spin ''D'' [] 0 ex_joined = Inr (after_spin ex_joined NaN [])
   \<and> spin ''D'' [1] 0 ex_joined = Inr (after_spin ex_joined (Num 37) [])
   \<and> spin ''D'' [- 1] 0 ex_joined = Inr (after_spin ex_joined (Num (- 37)) [])"
  by (simp add: spin_def ex_joined_fields ex_joined_idle no_bets_winner average_def floor37_def
        spin_results_def after_spin_def)

section \<open>The betting window\<close>

text \<open>
  Claim C9. In every state a run reaches from the initial state, an open betting window
  implies that the dealer slot is held. The window goes from closed to open only by
  \<open>openBets\<close> of the current dealer, and a step that empties the slot leaves the
  window closed.
\<close>

theorem open_window_has_dealer:
  "(run reg es (init_state reg) = Inr st \<longrightarrow> betsOpen st \<longrightarrow> dealerSocket st \<noteq> None)
   \<and> (step reg e s = Inr s' \<longrightarrow> \<not> betsOpen s \<longrightarrow> betsOpen s'
         \<longrightarrow> (\<exists>sid. e = OpenBets sid \<and> dealerSocket s = Some sid))
   \<and> (step reg e s = Inr s' \<longrightarrow> dealerSocket s \<noteq> None \<longrightarrow> dealerSocket s' = None
         \<longrightarrow> \<not> betsOpen s')"
proof (intro conjI impI)
  assume "run reg es (init_state reg) = Inr st" and "betsOpen st"
  with run_window_inv [of reg es "init_state reg" st] show "dealerSocket st \<noteq> None"
    by (simp add: init_state_def)
next
  assume "step reg e s = Inr s'" "\<not> betsOpen s" "betsOpen s'"
  then show "\<exists>sid. e = OpenBets sid \<and> dealerSocket s = Some sid" by (rule step_opens)
next
  assume "step reg e s = Inr s'" "dealerSocket s \<noteq> None" "dealerSocket s' = None"
  with step_dealer_cases [of reg e s s'] show "\<not> betsOpen s'" by auto
qed

theorem open_window_has_dealer_witness:
  "run ex_registry [Join ''D'' ''100001'', OpenBets ''D''] (init_state ex_registry) = Inr ex_open
   \<and> betsOpen ex_open \<and> dealerSocket ex_open \<noteq> None
   \<and> step ex_registry (OpenBets ''D'') ex_joined = Inr ex_open
   \<and> \<not> betsOpen ex_joined
   \<and> (\<exists>sid. OpenBets ''D'' = OpenBets sid \<and> dealerSocket ex_joined = Some sid)
   \<and> step ex_registry (Disconnect ''D'') ex_open = Inr (disconnect ''D'' ex_open)
   \<and> dealerSocket (disconnect ''D'' ex_open) = None
   \<and> \<not> betsOpen (disconnect ''D'' ex_open)"
proof -
  have r: "run ex_registry [Join ''D'' ''100001'', OpenBets ''D''] (init_state ex_registry) = Inr ex_open"
    by (simp add: ex_open_def ex_joined_def)
  have s1: "step ex_registry (OpenBets ''D'') ex_joined = Inr ex_open" by (simp add: ex_open_def)
  have s2: "step ex_registry (Disconnect ''D'') ex_open = Inr (disconnect ''D'' ex_open)" by simp
  have d: "dealerSocket (disconnect ''D'' ex_open) = None"
    by (simp add: handler_fields ex_open_fields)
  from open_window_has_dealer [of ex_registry "[Join ''D'' ''100001'', OpenBets ''D'']" ex_open
         "OpenBets ''D''" ex_joined ex_open]
       open_window_has_dealer [of ex_registry "[]" "init_state ex_registry"
         "Disconnect ''D''" ex_open "disconnect ''D'' ex_open"]
  show ?thesis using r s1 s2 d ex_open_fields ex_joined_fields by simp
qed

section \<open>The empty string as a bet\<close>

text \<open>
  Claim C10. A stored bet that is the empty string is normalised to the number 0 at the
  spin, because \<open>Number("")\<close> is 0: the connection is collected as a bettor on
  number 0 (so the ledger counts as holding a numeric bet), and it is classified WIN
  when the winning number is 0 and LOSE otherwise, zero having no colour.
\<close>

theorem empty_string_bet_counts_as_zero:
  assumes "dealerSocket st = Some d" and "\<not> spinning st"
    and "spin d clientRandoms r st = Inr st'"
    and "distinct (map fst (selections st))"
    and "map_of (selections st) sid = Some e" and "sel_bet e = JStr ''''"
  shows "normalize (sel_bet e) = JNum (Num 0)
       \<and> (\<exists>B. collect_bettors (selections st) no_bettors = Inr B \<and> anyNumeric B
              \<and> sid \<in> set (bettorsByNumber B ! 0))
       \<and> (\<exists>res. lastSpinResult st' = Some res
              \<and> map_of (results res) sid = Some (if winningNumber res = Num 0 then WIN else LOSE))"
proof -
  have n: "normalize (sel_bet e) = JNum (Num 0)" by (simp add: assms(6) normalize_empty)
  from spin_commits [OF assms(1,2,3)] obtain B where
    c: "collect_bettors (selections st) no_bettors = Inr B" and
    st': "st' = st\<lparr>spinning := True, betsOpen := False,
                lastSpinResult :=
                  Some \<lparr>winningNumber = choose_winner (weightBySocket st) B (average clientRandoms) r,
                        results = spin_results (choose_winner (weightBySocket st) B (average clientRandoms) r)
                                    (selections st)\<rparr>\<rparr>"
    by blast
  from assms(5) have mem: "(sid, e) \<in> set (selections st)" by (rule map_of_SomeD)
  have len: "length (bettorsByNumber no_bettors) = 37" by (simp add: no_bettors_def)
  note cr = collect_bettors_result [OF c len]
  have b0: "bets_number 0 (sid, e)" by (simp add: bets_number_def n)
  from cr have "bettorsByNumber B ! 0 = bettorsByNumber no_bettors ! 0 @ map fst (filter (bets_number 0) (selections st))"
    by simp
  with mem b0 have in0: "sid \<in> set (bettorsByNumber B ! 0)" by force
  have "in_table_range (normalize (sel_bet (snd (sid, e))))" by (simp add: n)
  with mem cr have an: "anyNumeric B" by blast
  let ?w = "choose_winner (weightBySocket st) B (average clientRandoms) r"
  have o: "map_of (spin_results ?w (selections st)) sid = Some (classify ?w (sel_bet e))"
    by (rule spin_results_lookup [OF assms(4,5)])
  show ?thesis using n c in0 an o classify_zero [OF n, of ?w] by (simp add: st')
qed

theorem empty_string_bet_counts_as_zero_witness:
  "dealerSocket (ex_table [(''A'', on_string ''Ann'' '''')] Map.empty) = Some ''D'' \<and>
   \<not> spinning (ex_table [(''A'', on_string ''Ann'' '''')] Map.empty) \<and>
   spin ''D'' [1/2] 0 (ex_table [(''A'', on_string ''Ann'' '''')] Map.empty)
     = Inr (after_spin (ex_table [(''A'', on_string ''Ann'' '''')] Map.empty) (Num 0) [(''A'', WIN)]) \<and>
   distinct (map fst (selections (ex_table [(''A'', on_string ''Ann'' '''')] Map.empty))) \<and>
   map_of (selections (ex_table [(''A'', on_string ''Ann'' '''')] Map.empty)) ''A''
     = Some (on_string ''Ann'' '''') \<and>
   sel_bet (on_string ''Ann'' '''') = JStr '''' \<and>
   normalize (sel_bet (on_string ''Ann'' '''')) = JNum (Num 0) \<and>
   (\<exists>B. collect_bettors (selections (ex_table [(''A'', on_string ''Ann'' '''')] Map.empty)) no_bettors
           = Inr B \<and> anyNumeric B \<and> ''A'' \<in> set (bettorsByNumber B ! 0))"
proof -
  let ?st = "ex_table [(''A'', on_string ''Ann'' '''')] Map.empty"
  have h1: "dealerSocket ?st = Some ''D''" and h2: "\<not> spinning ?st"
    and h4: "distinct (map fst (selections ?st))"
    and h5: "map_of (selections ?st) ''A'' = Some (on_string ''Ann'' '''')"
    and h6: "sel_bet (on_string ''Ann'' '''') = JStr ''''"
    by (simp_all add: ex_table_def init_state_def on_string_def)
  from empty_string_bet_counts_as_zero [OF h1 h2 ex_spin_empty h4 h5 h6]
  show ?thesis using h1 h2 h4 h5 h6 ex_spin_empty by blast
qed

end
